theory Spec2Isabelle
  imports Main "HOL-Library.Word" "HOL-Library.Sublist"
begin


section \<open>Data model\<close>

text \<open>
  Package \<open>debug\<close> (file \<open>runtime/debug/stack.go\<close>). Go's \<open>int\<close>, \<open>uint\<close> and
  \<open>uintptr\<close> are taken at their 64-bit width: all three are \<open>64 word\<close>, and the
  conversions \<open>uint(x)\<close> between them keep the bits. Signed comparisons are \<open>\<le>s\<close> and
  \<open><s\<close>, signed readings are \<open>sint\<close>; \<open>+\<close>, \<open>-\<close> and \<open>*\<close> wrap around.
  A Go \<open>string\<close> and a \<open>[]byte\<close> are both a byte sequence: \<open>string\<close>, a list of
  8-bit characters. A \<open>[]byte\<close> whose \<open>nil\<close> matters is a \<open>string option\<close>.
\<close>

type_synonym go_int = "64 word"
type_synonym go_uint = "64 word"
type_synonym uintptr = "64 word"

datatype panic = IndexOutOfRange | SliceBoundsOutOfRange | MakeSliceLenOutOfRange

text \<open>The conversion \<open>byte(x)\<close> of an unsigned value keeps the low eight bits.\<close>

definition byte :: "go_uint \<Rightarrow> char" where
  "byte x = char_of (unat x)"

section \<open>Integer to decimal: \<open>itoa\<close> and \<open>uitoa\<close>\<close>

text \<open>
  \<open>buf[i] = c\<close> on an array: Go panics when the index is out of range.
  \<open>buf[i:]\<close>: Go panics when \<open>i\<close> is negative or beyond the length.
\<close>

definition store :: "char list \<Rightarrow> int \<Rightarrow> char \<Rightarrow> panic + char list" where
  "store buf i c =
     (if 0 \<le> i \<and> i < int (length buf) then Inr (buf[nat i := c]) else Inl IndexOutOfRange)"

definition slice_from :: "char list \<Rightarrow> int \<Rightarrow> panic + char list" where
  "slice_from buf i =
     (if 0 \<le> i \<and> i \<le> int (length buf) then Inr (drop (nat i) buf)
      else Inl SliceBoundsOutOfRange)"

text \<open>
  The loop \<open>for val >= 10 { q := val / 10; buf[i] = byte('0' + val - q*10); i--; val = q }\<close>
  of \<open>uitoa\<close>, on the state \<open>(buf, i, val)\<close>. The index \<open>i\<close> only ever holds values
  between \<open>-1\<close> and \<open>19\<close>, so it is an \<open>int\<close>.
\<close>

function uitoa_loop :: "char list \<Rightarrow> int \<Rightarrow> go_uint \<Rightarrow> panic + (char list \<times> int \<times> go_uint)" where
  "uitoa_loop buf i val =
     (if 10 \<le> val then
        (let q = val div 10 in
         case store buf i (byte (48 + val - q * 10)) of
           Inl e \<Rightarrow> Inl e
         | Inr buf' \<Rightarrow> uitoa_loop buf' (i - 1) q)
      else Inr (buf, i, val))"
  by pat_completeness auto
termination
proof (relation "measure (\<lambda>(buf, i, val). unat val)")
  show "wf (measure (\<lambda>(buf, i, val). unat val))" by simp
next
  fix buf :: "char list" and i :: int and val q :: go_uint and buf' :: "char list"
  assume "10 \<le> val" and "q = val div 10"
  then have "unat q < unat val"
    by (simp add: unat_div word_le_nat_alt)
  then show "((buf', i - 1, q), (buf, i, val)) \<in> measure (\<lambda>(buf, i, val). unat val)"
    by simp
qed

declare uitoa_loop.simps [simp del]

definition uitoa :: "go_uint \<Rightarrow> panic + string" where
  "uitoa val =
     (if val = 0 then Inr ''0''
      else
        case uitoa_loop (replicate 20 (CHR 0x00)) (20 - 1) val of
          Inl e \<Rightarrow> Inl e
        | Inr (buf, i, val') \<Rightarrow>
            (case store buf i (byte (48 + val')) of
               Inl e \<Rightarrow> Inl e
             | Inr buf' \<Rightarrow> slice_from buf' i))"

text \<open>\<open>itoa\<close>: \<open>-val\<close> is the wrapping negation, \<open>uint(-val)\<close> keeps its bits.\<close>

definition itoa :: "go_int \<Rightarrow> panic + string" where
  "itoa val =
     (if val <s 0 then
        (case uitoa (- val) of Inl e \<Rightarrow> Inl e | Inr s \<Rightarrow> Inr (''-'' @ s))
      else uitoa val)"

subsection \<open>Decimal text, as a specification\<close>

text \<open>
  The canonical decimal numeral of a natural number and of an integer, and a parser
  of base-10 text (an optional \<open>-\<close>, then one or more digits). They are what the
  encoder is compared with, and what \<open>%d\<close> of package \<open>fmt\<close> prints.
\<close>

definition digit_char :: "nat \<Rightarrow> char" where
  "digit_char d = char_of (48 + d)"

fun dec_nat :: "nat \<Rightarrow> string" where
  "dec_nat n = (if n < 10 then [digit_char n] else dec_nat (n div 10) @ [digit_char (n mod 10)])"

declare dec_nat.simps [simp del]

definition dec_int :: "int \<Rightarrow> string" where
  "dec_int k = (if k < 0 then CHR ''-'' # dec_nat (nat (- k)) else dec_nat (nat k))"

definition is_digit :: "char \<Rightarrow> bool" where
  "is_digit c = (48 \<le> (of_char c :: nat) \<and> (of_char c :: nat) \<le> 57)"

definition digit_val :: "char \<Rightarrow> nat" where
  "digit_val c = of_char c - 48"

definition parse_nat :: "string \<Rightarrow> nat option" where
  "parse_nat s =
     (if s \<noteq> [] \<and> list_all is_digit s
      then Some (foldl (\<lambda>a c. 10 * a + digit_val c) 0 s) else None)"

definition parse_decimal :: "string \<Rightarrow> int option" where
  "parse_decimal s =
     (case s of
        [] \<Rightarrow> None
      | c # r \<Rightarrow>
          if c = CHR ''-'' then map_option (\<lambda>m. - int m) (parse_nat r)
          else map_option int (parse_nat s))"

section \<open>Source lines and function names: \<open>source\<close> and \<open>function\<close>\<close>

definition dunno :: string where
  "dunno = ''???''"

text \<open>The center dot is U+00B7, in UTF-8 the two bytes \<open>0xC2 0xB7\<close>.\<close>

definition centerDot :: string where
  "centerDot = [CHR 0xC2, CHR 0xB7]"

definition dot :: string where
  "dot = ''.''"

subsection \<open>Package \<open>bytes\<close>\<close>

text \<open>
  The functions of Go's package \<open>bytes\<close> that the file calls, on ASCII cut sets and
  non-empty separators, which is how it calls them.
  \<open>bytes.Trim(s, cutset)\<close> removes the bytes of \<open>cutset\<close> from the right end, then from
  the left end.
\<close>

definition bytes_Trim :: "string \<Rightarrow> string \<Rightarrow> string" where
  "bytes_Trim s cutset =
     dropWhile (\<lambda>c. c \<in> set cutset) (rev (dropWhile (\<lambda>c. c \<in> set cutset) (rev s)))"

text \<open>\<open>bytes.Index(s, sep)\<close>: the index of the first occurrence of \<open>sep\<close>, or \<open>-1\<close>.\<close>

fun bytes_Index :: "string \<Rightarrow> string \<Rightarrow> int" where
  "bytes_Index [] sep = (if sep = [] then 0 else - 1)"
| "bytes_Index (c # r) sep =
     (if prefix sep (c # r) then 0
      else (let k = bytes_Index r sep in if k < 0 then - 1 else k + 1))"

text \<open>
  \<open>bytes.Replace(s, old, new, -1)\<close>: every non-overlapping occurrence of \<open>old\<close>, found
  from the left, becomes \<open>new\<close>. (With an empty \<open>old\<close> Go inserts \<open>new\<close> around every
  rune; that case is not reached here and the model leaves \<open>s\<close> alone.)
\<close>

function bytes_Replace :: "string \<Rightarrow> string \<Rightarrow> string \<Rightarrow> string" where
  "bytes_Replace [] old new = []"
| "bytes_Replace (c # r) old new =
     (if old \<noteq> [] \<and> prefix old (c # r)
      then new @ bytes_Replace (drop (length old) (c # r)) old new
      else c # bytes_Replace r old new)"
  by pat_completeness auto
termination
  by (relation "measure (\<lambda>(s, old, new). length s)") (auto simp: neq_Nil_conv)

text \<open>\<open>bytes.Split(data, []byte{'\n'})\<close>: the segments between newlines; one more than
  there are newlines, so the empty input gives one empty segment.\<close>

fun bytes_Split_nl :: "string \<Rightarrow> string list" where
  "bytes_Split_nl [] = [[]]"
| "bytes_Split_nl (c # r) =
     (if c = CHR 0x0A then [] # bytes_Split_nl r
      else (case bytes_Split_nl r of [] \<Rightarrow> [[c]] | l # ls \<Rightarrow> (c # l) # ls))"

subsection \<open>\<open>source\<close>\<close>

text \<open>
  \<open>source(lines, n)\<close>. \<open>len(lines)\<close> is an \<open>int\<close> that holds the length, so the
  comparison \<open>n >= len(lines)\<close> is one of integers.
\<close>

definition source :: "string list \<Rightarrow> go_int \<Rightarrow> string" where
  "source lines n =
     (if n <s 0 \<or> int (length lines) \<le> sint n then dunno
      else bytes_Trim (lines ! nat (sint n)) [CHR '' '', CHR 0x09])"

subsection \<open>\<open>function\<close>\<close>

text \<open>
  \<open>function(pc)\<close>. The symbol table of the running program is a parameter:
  \<open>FuncForPC pc\<close> is \<open>None\<close> where \<open>runtime.FuncForPC\<close> returns \<open>nil\<close>, and
  otherwise the text of \<open>fn.Name()\<close>. The name \<open>function\<close> is a keyword of
  Isabelle, so the constant is \<open>function_pc\<close>.
\<close>

definition function_pc :: "(uintptr \<Rightarrow> string option) \<Rightarrow> uintptr \<Rightarrow> string" where
  "function_pc FuncForPC pc =
     (case FuncForPC pc of
        None \<Rightarrow> dunno
      | Some name \<Rightarrow>
          (let period = bytes_Index name dot;
               name' = (if 0 \<le> period then drop (nat (period + 1)) name else name)
           in bytes_Replace name' centerDot dot))"


section \<open>The human-readable trace: \<open>stack\<close>\<close>

text \<open>
  A frame as the runtime reports it: the program counter, the file and the line
  (\<open>runtime.Caller\<close> returns the three; \<open>runtime.Frame\<close> has them as fields).
\<close>

record frame =
  PC :: uintptr
  File :: string
  Line :: go_int

text \<open>
  The host runtime is a parameter. The goroutine's call stack is a list of frames,
  innermost first, as seen from the function that asks. \<open>runtime.Caller(i)\<close> is
  frame \<open>i\<close> of it, and \<open>ok\<close> is false from the end of the stack on.
\<close>

definition runtime_Caller :: "frame list \<Rightarrow> nat \<Rightarrow> frame option" where
  "runtime_Caller stk i = (if i < length stk then Some (stk ! i) else None)"

text \<open>The verbs of \<open>fmt.Fprintf\<close>: \<open>%d\<close> of an \<open>int\<close> and \<open>%x\<close> of a \<open>uintptr\<close>
  (lower case, no padding).\<close>

definition hex_digit :: "nat \<Rightarrow> char" where
  "hex_digit d = (if d < 10 then char_of (48 + d) else char_of (87 + d))"

fun hex_nat :: "nat \<Rightarrow> string" where
  "hex_nat n = (if n < 16 then [hex_digit n] else hex_nat (n div 16) @ [hex_digit (n mod 16)])"

declare hex_nat.simps [simp del]

definition fmt_d :: "go_int \<Rightarrow> string" where
  "fmt_d v = dec_int (sint v)"

definition fmt_x :: "uintptr \<Rightarrow> string" where
  "fmt_x p = hex_nat (unat p)"

text \<open>
  The variables of \<open>stack\<close>: the output buffer \<open>buf\<close>, the lines of the currently
  loaded file and its name \<open>lastFile\<close>. The field \<open>reads\<close> is not a variable of the
  code: it records, in order, the file names passed to \<open>ioutil.ReadFile\<close>, the effect
  of the run on the file system.
\<close>

record trace_state =
  buf :: string
  lines :: "string list"
  lastFile :: string
  reads :: "string list"

text \<open>The location line \<open>"%s:%d (0x%x)\n"\<close> and the second line \<open>"\t%s: %s\n"\<close>,
  printed after \<open>line--\<close>.\<close>

definition location_line :: "frame \<Rightarrow> string" where
  "location_line fr =
     File fr @ '':'' @ fmt_d (Line fr) @ '' (0x'' @ fmt_x (PC fr) @ '')'' @ [CHR 0x0A]"

definition source_line :: "(uintptr \<Rightarrow> string option) \<Rightarrow> frame \<Rightarrow> string list \<Rightarrow> string" where
  "source_line FuncForPC fr ls =
     [CHR 0x09] @ function_pc FuncForPC (PC fr) @ '': '' @ source ls (Line fr - 1) @ [CHR 0x0A]"

text \<open>
  One turn of the loop of \<open>stack\<close>, for a frame that \<open>runtime.Caller\<close> returned with
  \<open>ok\<close>. \<open>ReadFile name\<close> is \<open>None\<close> where \<open>ioutil.ReadFile\<close> returns an error and
  the contents otherwise; the files do not change during a run. The \<open>continue\<close> on
  a failed read leaves \<open>lines\<close> and \<open>lastFile\<close> as they were.
\<close>

definition stack_frame ::
  "(string \<Rightarrow> string option) \<Rightarrow> (uintptr \<Rightarrow> string option) \<Rightarrow> frame \<Rightarrow> trace_state \<Rightarrow> trace_state"
where
  "stack_frame ReadFile FuncForPC fr s =
     (let s1 = s\<lparr>buf := buf s @ location_line fr\<rparr> in
      if File fr \<noteq> lastFile s1 then
        (let s2 = s1\<lparr>reads := reads s1 @ [File fr]\<rparr> in
         case ReadFile (File fr) of
           None \<Rightarrow> s2
         | Some data \<Rightarrow>
             (let s3 = s2\<lparr>lines := bytes_Split_nl data, lastFile := File fr\<rparr> in
              s3\<lparr>buf := buf s3 @ source_line FuncForPC fr (lines s3)\<rparr>))
      else s1\<lparr>buf := buf s1 @ source_line FuncForPC fr (lines s1)\<rparr>)"

text \<open>The loop \<open>for i := 2; ; i++\<close>, left when \<open>runtime.Caller(i)\<close> is not \<open>ok\<close>.\<close>

function stack_loop ::
  "(string \<Rightarrow> string option) \<Rightarrow> (uintptr \<Rightarrow> string option) \<Rightarrow> frame list \<Rightarrow> nat \<Rightarrow>
   trace_state \<Rightarrow> trace_state"
where
  "stack_loop ReadFile FuncForPC stk i s =
     (case runtime_Caller stk i of
        None \<Rightarrow> s
      | Some fr \<Rightarrow> stack_loop ReadFile FuncForPC stk (i + 1) (stack_frame ReadFile FuncForPC fr s))"
  by pat_completeness auto
termination
  by (relation "measure (\<lambda>(ReadFile, FuncForPC, stk, i, s). length stk - i)")
     (auto simp: runtime_Caller_def split: if_splits)

declare stack_loop.simps [simp del]

text \<open>The state at the start of \<open>stack\<close>: an empty buffer, \<open>lines\<close> nil, \<open>lastFile\<close>
  the empty string, nothing read.\<close>

definition init_state :: trace_state where
  "init_state = \<lparr>buf = [], lines = [], lastFile = [], reads = []\<rparr>"

definition stack_run ::
  "(string \<Rightarrow> string option) \<Rightarrow> (uintptr \<Rightarrow> string option) \<Rightarrow> frame list \<Rightarrow> trace_state"
where
  "stack_run ReadFile FuncForPC stk = stack_loop ReadFile FuncForPC stk 2 init_state"

definition stack ::
  "(string \<Rightarrow> string option) \<Rightarrow> (uintptr \<Rightarrow> string option) \<Rightarrow> frame list \<Rightarrow> string"
where
  "stack ReadFile FuncForPC stk = buf (stack_run ReadFile FuncForPC stk)"

text \<open>
  The turns of the loop for a list of frames in order, to speak of the state before
  and after a frame of a run.
\<close>

definition stack_frames ::
  "(string \<Rightarrow> string option) \<Rightarrow> (uintptr \<Rightarrow> string option) \<Rightarrow> frame list \<Rightarrow>
   trace_state \<Rightarrow> trace_state"
where
  "stack_frames ReadFile FuncForPC frs s = foldl (\<lambda>s fr. stack_frame ReadFile FuncForPC fr s) s frs"

text \<open>Stacks for the examples: below the two frames that \<open>stack\<close> skips, two frames
  from one file; and one frame without a file name.\<close>

definition skipped_frames :: "frame list" where
  "skipped_frames =
     [\<lparr>PC = 0x1, File = ''stack.go'', Line = 44\<rparr>, \<lparr>PC = 0x2, File = ''stack.go'', Line = 33\<rparr>]"

definition same_file_stack :: "frame list" where
  "same_file_stack =
     skipped_frames @
     [\<lparr>PC = 0x10, File = ''a.go'', Line = 10\<rparr>, \<lparr>PC = 0x20, File = ''a.go'', Line = 20\<rparr>]"

definition nameless_stack :: "frame list" where
  "nameless_stack = skipped_frames @ [\<lparr>PC = 0x10, File = [], Line = 0\<rparr>]"


section \<open>The compact list: \<open>Callers\<close>\<close>

text \<open>
  \<open>make([]uintptr, len)\<close> is \<open>runtime.makeslice\<close>: it panics with
  \<open>len out of range\<close> when the length is negative, when the size in bytes (eight for
  each entry) overflows a \<open>uintptr\<close>, and when that size exceeds the limit
  \<open>maxAlloc\<close> of the runtime. The limit is a constant of the runtime that depends on
  the platform (\<open>2 ^ 48\<close> on linux/amd64), so it is a parameter. A request within
  the limit is taken to be granted: running out of memory below the limit ends the
  program and is not part of the model.
\<close>

definition make_uintptr :: "uintptr \<Rightarrow> go_int \<Rightarrow> panic + nat" where
  "make_uintptr maxAlloc len =
     (if len <s 0 \<or> 2 ^ 64 \<le> 8 * unat len \<or> unat maxAlloc < 8 * unat len
      then Inl MakeSliceLenOutOfRange
      else Inr (nat (sint len)))"

text \<open>
  \<open>runtime.Callers(skip, pc)\<close> fills \<open>pc\<close> with the frames of the stack from \<open>skip\<close>
  on, as many as fit, and returns their number; the slice \<open>pc[0:n]\<close> is then that
  list. An entry stands for its frame (one frame for each entry).
\<close>

definition runtime_Callers :: "frame list \<Rightarrow> nat \<Rightarrow> nat \<Rightarrow> frame list" where
  "runtime_Callers stk skip cap = take cap (drop skip stk)"

text \<open>
  \<open>frames.Next()\<close> on the iterator of \<open>runtime.CallersFrames(pc)\<close>: the next frame,
  whether more follow, and the iterator after the call. At the end it returns the
  zero frame.
\<close>

definition Frames_Next :: "frame list \<Rightarrow> frame \<times> bool \<times> frame list" where
  "Frames_Next frames =
     (case frames of
        [] \<Rightarrow> (\<lparr>PC = 0, File = [], Line = 0\<rparr>, False, [])
      | f # r \<Rightarrow> (f, r \<noteq> [], r))"

text \<open>\<open>append(b, xs...)\<close> on a slice that may be \<open>nil\<close>: appending nothing to
  \<open>nil\<close> is \<open>nil\<close>.\<close>

definition go_append :: "string option \<Rightarrow> string \<Rightarrow> string option" where
  "go_append b xs =
     (case b of None \<Rightarrow> (if xs = [] then None else Some xs) | Some ys \<Rightarrow> Some (ys @ xs))"

text \<open>The body of \<open>if i >= n { ... }\<close>: the new \<open>b\<close> and \<open>prev\<close>.\<close>

definition Callers_emit :: "frame \<Rightarrow> bool \<Rightarrow> string option \<Rightarrow> panic + (string option \<times> bool)" where
  "Callers_emit fr prev b =
     (let b1 = (if prev then go_append b '' '' else b);
          b2 = go_append b1 (File fr);
          b3 = go_append b2 '':''
      in case itoa (Line fr) of
           Inl e \<Rightarrow> Inl e
         | Inr s \<Rightarrow> Inr (go_append b3 s, True))"

text \<open>The loop \<open>for i := 0; i < n+max; i++\<close>, with its \<open>break\<close> when no more frames
  follow. The sum \<open>n+max\<close> wraps.\<close>

function Callers_loop ::
  "frame list \<Rightarrow> go_int \<Rightarrow> go_int \<Rightarrow> go_int \<Rightarrow> bool \<Rightarrow> string option \<Rightarrow> panic + string option"
where
  "Callers_loop frames i n max' prev b =
     (if i <s n + max' then
        (case Frames_Next frames of
           (fr, more', frames') \<Rightarrow>
             (case (if n \<le>s i then Callers_emit fr prev b else Inr (b, prev)) of
                Inl e \<Rightarrow> Inl e
              | Inr (b', prev') \<Rightarrow>
                  if \<not> more' then Inr b'
                  else Callers_loop frames' (i + 1) n max' prev' b'))
      else Inr b)"
  by pat_completeness auto
termination
  by (relation "measure (\<lambda>(frames, i, n, max', prev, b). length frames)")
     (auto simp: Frames_Next_def split: list.splits)

declare Callers_loop.simps [simp del]

text \<open>
  \<open>Callers(n, max)\<close> on the stack \<open>stk\<close> as \<open>runtime.Callers(0, pc)\<close> sees it, in a
  runtime with the allocation limit \<open>maxAlloc\<close>. The product \<open>max*2\<close> wraps. The
  result is \<open>None\<close> for a \<open>nil\<close> slice.
\<close>

definition Callers :: "uintptr \<Rightarrow> frame list \<Rightarrow> go_int \<Rightarrow> go_int \<Rightarrow> panic + string option" where
  "Callers maxAlloc stk n max' =
     (case make_uintptr maxAlloc (max' * 2) of
        Inl e \<Rightarrow> Inl e
      | Inr len \<Rightarrow>
          (let pc = runtime_Callers stk 0 len in
           if length pc = 0 then Inr None
           else Callers_loop pc 0 n max' False None))"

subsection \<open>The compact list, as the specification words it\<close>

text \<open>
  The list as the specification describes it: drop the first \<open>skip\<close> frames of the
  stack, take up to \<open>max\<close> of the rest, write each as \<open>file:line\<close> and join them with
  single spaces. No frame to write gives the absent sequence.
\<close>

definition location :: "frame \<Rightarrow> string" where
  "location fr = File fr @ '':'' @ dec_int (sint (Line fr))"

fun join_space :: "string list \<Rightarrow> string" where
  "join_space [] = []"
| "join_space [x] = x"
| "join_space (x # y # zs) = x @ '' '' @ join_space (y # zs)"

definition spec_locations :: "frame list \<Rightarrow> nat \<Rightarrow> nat \<Rightarrow> string option" where
  "spec_locations stk skip mx =
     (let window = take mx (drop skip stk)
      in if window = [] then None else Some (join_space (map location window)))"

text \<open>
  What the loop of \<open>Callers\<close> appends for a list of frames, starting from the slice
  \<open>b\<close> and the flag \<open>prev\<close>; and the frames the loop writes when it starts at index
  \<open>I\<close> with first written index \<open>N\<close> and bound \<open>L\<close>.
\<close>

definition bytes_of :: "string option \<Rightarrow> string" where
  "bytes_of b = (case b of None \<Rightarrow> [] | Some s \<Rightarrow> s)"

fun emit_list :: "string option \<Rightarrow> bool \<Rightarrow> frame list \<Rightarrow> string option" where
  "emit_list b prev [] = b"
| "emit_list b prev (f # fs) =
     emit_list (Some (bytes_of b @ (if prev then '' '' else []) @ location f)) True fs"

definition window_from :: "int \<Rightarrow> int \<Rightarrow> int \<Rightarrow> frame list \<Rightarrow> frame list" where
  "window_from N L I frames = take (nat (L - max I N)) (drop (nat (N - I)) frames)"

text \<open>Stacks for the examples.\<close>

definition three_frames :: "frame list" where
  "three_frames =
     [\<lparr>PC = 0x10, File = ''a.go'', Line = 1\<rparr>, \<lparr>PC = 0x20, File = ''b.go'', Line = 2\<rparr>,
      \<lparr>PC = 0x30, File = ''c.go'', Line = 3\<rparr>]"

definition four_frames :: "frame list" where
  "four_frames = three_frames @ [\<lparr>PC = 0x40, File = ''d.go'', Line = 4\<rparr>]"


section \<open>Correctness of the integer encoder\<close>

lemma char_of_48: "char_of (48::nat) = CHR ''0''"
  by code_simp

lemma word_digit: "unat (48 + val - val div 10 * 10 :: go_uint) = 48 + unat val mod 10"
proof -
  have "48 + val - val div 10 * 10 = 48 + (val - val div 10 * 10)"
    by simp
  also have "\<dots> = 48 + val mod 10"
    by (simp only: minus_div_mult_eq_mod)
  finally have e: "48 + val - val div 10 * 10 = 48 + val mod 10" .
  have "unat (48 + val mod 10) = 48 + unat val mod 10"
    by (simp add: unat_word_ariths unat_mod)
  then show ?thesis by (simp only: e)
qed

lemma byte_digit: "byte (48 + val - val div 10 * 10) = digit_char (unat val mod 10)"
  by (simp add: byte_def digit_char_def word_digit)

lemma byte_msd: "unat val < 10 \<Longrightarrow> byte (48 + val) = digit_char (unat val)"
proof -
  assume "unat val < 10"
  then have "unat (48 + val) = 48 + unat val"
    by (simp add: unat_word_ariths)
  then show ?thesis by (simp add: byte_def digit_char_def)
qed

lemma drop_store: "i < length xs \<Longrightarrow> drop i (xs[i := x]) = x # drop (Suc i) xs"
  by (simp add: Cons_nth_drop_Suc [symmetric])

lemma uitoa_loop_digits:
  "0 \<le> i \<Longrightarrow> i < int (length arr) \<Longrightarrow> unat val < 10 ^ (nat i + 1) \<Longrightarrow>
   \<exists>arr' i' msd. uitoa_loop arr i val = Inr (arr', i', msd) \<and> 0 \<le> i' \<and> i' \<le> i \<and>
     length arr' = length arr \<and> unat msd < 10 \<and>
     digit_char (unat msd) # drop (nat i' + 1) arr' = dec_nat (unat val) @ drop (nat i + 1) arr"
proof (induction arr i val rule: uitoa_loop.induct)
  case (1 arr i val)
  show ?case
  proof (cases "10 \<le> val")
    case False
    then have "unat val < 10" by (simp add: word_le_nat_alt)
    then show ?thesis using False "1.prems"
      by (subst uitoa_loop.simps) (simp add: dec_nat.simps)
  next
    case True
    define q where "q = val div 10"
    define arr1 where "arr1 = arr[nat i := byte (48 + val - q * 10)]"
    have uq: "unat q = unat val div 10" by (simp add: q_def unat_div)
    have uv: "10 \<le> unat val" using True by (simp add: word_le_nat_alt)
    have ipos: "1 \<le> i"
    proof (rule ccontr)
      assume "\<not> 1 \<le> i"
      with "1.prems" have "i = 0" by simp
      with "1.prems" uv show False by simp
    qed
    have st: "store arr i (byte (48 + val - q * 10)) = Inr arr1"
      using "1.prems" by (simp add: store_def arr1_def)
    have qb: "unat q < 10 ^ (nat (i - 1) + 1)"
    proof -
      have "nat i + 1 = Suc (nat (i - 1) + 1)" using ipos by simp
      then have "unat val < 10 * 10 ^ (nat (i - 1) + 1)" using "1.prems"(3) by simp
      then show ?thesis unfolding uq by simp
    qed
    have "\<exists>arr' i' msd. uitoa_loop arr1 (i - 1) q = Inr (arr', i', msd) \<and> 0 \<le> i' \<and> i' \<le> i - 1 \<and>
       length arr' = length arr1 \<and> unat msd < 10 \<and>
       digit_char (unat msd) # drop (nat i' + 1) arr' = dec_nat (unat q) @ drop (nat (i - 1) + 1) arr1"
      using "1.IH" [OF True q_def st] ipos "1.prems" qb by (simp add: arr1_def)
    then obtain arr' i' msd where r: "uitoa_loop arr1 (i - 1) q = Inr (arr', i', msd)"
      and b: "0 \<le> i'" "i' \<le> i - 1" "length arr' = length arr1" "unat msd < 10"
      and d: "digit_char (unat msd) # drop (nat i' + 1) arr' = dec_nat (unat q) @ drop (nat (i - 1) + 1) arr1"
      by blast
    have ni: "nat (i - 1) + 1 = nat i" using ipos by simp
    have "drop (nat i) arr1 = digit_char (unat val mod 10) # drop (nat i + 1) arr"
      using "1.prems" by (simp add: arr1_def q_def drop_store byte_digit)
    with d ni have "digit_char (unat msd) # drop (nat i' + 1) arr' =
        (dec_nat (unat q) @ [digit_char (unat val mod 10)]) @ drop (nat i + 1) arr"
      by simp
    also have "dec_nat (unat q) @ [digit_char (unat val mod 10)] = dec_nat (unat val)"
      using uv by (subst (2) dec_nat.simps) (simp add: uq)
    finally have d': "digit_char (unat msd) # drop (nat i' + 1) arr' = dec_nat (unat val) @ drop (nat i + 1) arr" .
    have "uitoa_loop arr i val = uitoa_loop arr1 (i - 1) q"
      using True st by (subst uitoa_loop.simps) (simp add: q_def Let_def)
    with r b d' show ?thesis by (simp add: arr1_def)
  qed
qed

lemma uitoa_dec_nat: "uitoa val = Inr (dec_nat (unat val))"
proof (cases "val = 0")
  case True
  then show ?thesis by (simp add: uitoa_def dec_nat.simps digit_char_def char_of_48)
next
  case False
  have "unat val < 2 ^ 64" using unsigned_less [of val, where ?'a = nat] by simp
  also have "(2::nat) ^ 64 < 10 ^ 20" by simp
  finally have bound: "unat val < 10 ^ (nat 19 + 1)" by simp
  obtain arr' i' msd where r: "uitoa_loop (replicate 20 (CHR 0x00)) 19 val = Inr (arr', i', msd)"
    and b: "0 \<le> i'" "i' \<le> 19" "length arr' = 20" "unat msd < 10"
    and d: "digit_char (unat msd) # drop (nat i' + 1) arr' = dec_nat (unat val) @ drop (nat 19 + 1) (replicate 20 (CHR 0x00))"
    using uitoa_loop_digits [of 19 "replicate 20 (CHR 0x00)" val] bound by auto
  have "drop (nat i') (arr'[nat i' := byte (48 + msd)]) = dec_nat (unat val)"
    using b d by (simp add: drop_store byte_msd)
  then show ?thesis using False r b
    by (simp add: uitoa_def store_def slice_from_def)
qed


lemma is_digit_digit_char: "d < 10 \<Longrightarrow> is_digit (digit_char d)"
  by (simp add: is_digit_def digit_char_def)

lemma digit_val_digit_char: "d < 10 \<Longrightarrow> digit_val (digit_char d) = d"
  by (simp add: digit_val_def digit_char_def)

lemma dec_nat_all_digits: "list_all is_digit (dec_nat n)"
proof (induction n rule: dec_nat.induct)
  case (1 n)
  show ?case
  proof (cases "n < 10")
    case True
    then show ?thesis by (subst dec_nat.simps) (simp add: is_digit_digit_char)
  next
    case False
    with 1 show ?thesis by (subst dec_nat.simps) (simp add: is_digit_digit_char)
  qed
qed

lemma dec_nat_nonempty: "dec_nat n \<noteq> []"
  by (subst dec_nat.simps) simp

lemma dec_nat_value: "foldl (\<lambda>a c. 10 * a + digit_val c) 0 (dec_nat n) = n"
proof (induction n rule: dec_nat.induct)
  case (1 n)
  show ?case
  proof (cases "n < 10")
    case True
    then show ?thesis by (subst dec_nat.simps) (simp add: digit_val_digit_char)
  next
    case False
    with 1 show ?thesis by (subst dec_nat.simps) (simp add: digit_val_digit_char)
  qed
qed

lemma parse_nat_dec_nat: "parse_nat (dec_nat n) = Some n"
  by (simp add: parse_nat_def dec_nat_nonempty dec_nat_all_digits dec_nat_value)

lemma minus_not_digit: "\<not> is_digit CHR ''-''"
  by (simp add: is_digit_def)

lemma dec_nat_no_minus: "dec_nat n = c # r \<Longrightarrow> c \<noteq> CHR ''-''"
  using dec_nat_all_digits [of n] minus_not_digit by auto

lemma parse_decimal_dec_int: "parse_decimal (dec_int k) = Some k"
proof (cases "k < 0")
  case True
  then show ?thesis by (simp add: parse_decimal_def dec_int_def parse_nat_dec_nat)
next
  case False
  obtain c r where cr: "dec_nat (nat k) = c # r"
    using dec_nat_nonempty [of "nat k"] by (cases "dec_nat (nat k)") auto
  then have "c \<noteq> CHR ''-''" by (rule dec_nat_no_minus)
  moreover have "parse_nat (c # r) = Some (nat k)"
    using parse_nat_dec_nat [of "nat k"] cr by simp
  ultimately show ?thesis using False cr
    by (simp add: parse_decimal_def dec_int_def)
qed

lemma uint_nonneg: "0 \<le> sint (v :: go_int) \<Longrightarrow> uint v = sint v"
proof -
  assume a: "0 \<le> sint v"
  have "sint v < 2 ^ 63" using sint_lt [of v] by simp
  then have "sint v < 2 ^ 64" by simp
  with a have "sint v mod 2 ^ 64 = sint v" by simp
  then show ?thesis by (simp add: uint_sint take_bit_eq_mod)
qed

lemma uint_neg: "sint (v :: go_int) < 0 \<Longrightarrow> uint (- v) = - sint v"
proof -
  assume a: "sint v < 0"
  have lo: "- (2 ^ 63) \<le> sint v" using sint_ge [of v] by simp
  have "uint (- v) = (- uint v) mod 2 ^ 64" by (simp add: uint_word_ariths)
  also have "\<dots> = (- (sint v mod 2 ^ 64)) mod 2 ^ 64"
    by (simp add: uint_sint take_bit_eq_mod)
  also have "\<dots> = (- sint v) mod 2 ^ 64" by (simp add: mod_minus_eq)
  also have "\<dots> = - sint v" using a lo by simp
  finally show ?thesis .
qed

lemma unat_neg: "sint (v :: go_int) < 0 \<Longrightarrow> unat (- v) = nat (- sint v)"
  using uint_neg [of v] by (simp add: unat_eq_nat_uint)

lemma unat_nonneg: "0 \<le> sint (v :: go_int) \<Longrightarrow> unat v = nat (sint v)"
  using uint_nonneg [of v] by (simp add: unat_eq_nat_uint)

lemma itoa_dec_int: "itoa val = Inr (dec_int (sint val))"
proof (cases "val <s 0")
  case True
  then have "sint val < 0" by (simp add: word_sless_alt)
  then show ?thesis using True
    by (simp add: itoa_def uitoa_dec_nat dec_int_def unat_neg)
next
  case False
  then have "0 \<le> sint val" by (simp add: word_sless_alt)
  then show ?thesis using False
    by (simp add: itoa_def uitoa_dec_nat dec_int_def unat_nonneg)
qed

lemma digit_char_numerals:
  "digit_char 0 = CHR ''0''" "digit_char 1 = CHR ''1''" "digit_char 2 = CHR ''2''"
  "digit_char 3 = CHR ''3''" "digit_char 4 = CHR ''4''" "digit_char 5 = CHR ''5''"
  "digit_char 6 = CHR ''6''" "digit_char 7 = CHR ''7''" "digit_char 8 = CHR ''8''"
  "digit_char 9 = CHR ''9''" "digit_char (Suc 0) = CHR ''1''"
  by code_simp+

lemma sint_neg_not_min:
  "sint (n :: go_int) < 0 \<Longrightarrow> n \<noteq> - 9223372036854775808 \<Longrightarrow> sint (- n) = - sint n"
proof -
  assume a: "sint n < 0" and m: "n \<noteq> - 9223372036854775808"
  have "sint n \<noteq> - 9223372036854775808"
  proof
    assume "sint n = - 9223372036854775808"
    then have "word_of_int (sint n) = (word_of_int (- 9223372036854775808) :: go_int)" by simp
    then have "n = - 9223372036854775808" by simp
    with m show False by simp
  qed
  moreover have "- (2 ^ 63) \<le> sint n" using sint_ge [of n] by simp
  ultimately have "- (2 ^ 63) \<le> - sint n" "- sint n < 2 ^ 63" using a by simp_all
  then have "signed_take_bit 63 (- sint n) = - sint n"
    by (simp add: signed_take_bit_int_eq_self)
  then show ?thesis by (simp add: sint_word_ariths)
qed

section \<open>Facts about trimming, searching and replacing\<close>

subsection \<open>Trimming\<close>

lemma bytes_Trim_decompose:
  "\<exists>pre post. s = pre @ bytes_Trim s cutset @ post \<and> set pre \<subseteq> set cutset \<and> set post \<subseteq> set cutset"
proof -
  define P where "P = (\<lambda>c. c \<in> set cutset)"
  define s1 where "s1 = rev (dropWhile P (rev s))"
  define post where "post = rev (takeWhile P (rev s))"
  define pre where "pre = takeWhile P s1"
  have "s = rev (takeWhile P (rev s) @ dropWhile P (rev s))"
    by (simp only: takeWhile_dropWhile_id rev_rev_ident)
  then have a: "s = s1 @ post" by (simp only: s1_def post_def rev_append)
  have b: "s1 = pre @ dropWhile P s1" by (simp add: pre_def)
  have t: "bytes_Trim s cutset = dropWhile P s1" by (simp add: bytes_Trim_def P_def s1_def)
  have "\<forall>c \<in> set post. P c" unfolding post_def using set_takeWhileD [of _ P "rev s"] by auto
  moreover have "\<forall>c \<in> set pre. P c" unfolding pre_def using set_takeWhileD [of _ P s1] by auto
  ultimately have "set pre \<subseteq> set cutset" "set post \<subseteq> set cutset" by (auto simp: P_def)
  moreover have "s = pre @ bytes_Trim s cutset @ post" using a b t by simp
  ultimately show ?thesis by blast
qed

lemma bytes_Trim_hd: "bytes_Trim s cutset \<noteq> [] \<Longrightarrow> hd (bytes_Trim s cutset) \<notin> set cutset"
  unfolding bytes_Trim_def using hd_dropWhile [of "\<lambda>c. c \<in> set cutset"] by blast

lemma last_dropWhile: "dropWhile P xs \<noteq> [] \<Longrightarrow> last (dropWhile P xs) = last xs"
  by (induction xs) (auto split: if_splits)

lemma bytes_Trim_last: "bytes_Trim s cutset \<noteq> [] \<Longrightarrow> last (bytes_Trim s cutset) \<notin> set cutset"
proof -
  define P where "P = (\<lambda>c. c \<in> set cutset)"
  define d where "d = dropWhile P (rev s)"
  assume ne: "bytes_Trim s cutset \<noteq> []"
  then have n1: "dropWhile P (rev d) \<noteq> []" by (simp add: bytes_Trim_def P_def d_def)
  then have dne: "d \<noteq> []" by auto
  have "last (dropWhile P (rev d)) = last (rev d)" using n1 by (rule last_dropWhile)
  also have "\<dots> = hd d" using dne by (simp add: last_rev)
  finally have "last (bytes_Trim s cutset) = hd d" by (simp add: bytes_Trim_def P_def d_def)
  moreover have "\<not> P (hd d)" unfolding d_def using dne hd_dropWhile [of P "rev s"] by (simp add: d_def)
  ultimately show ?thesis by (simp add: P_def)
qed

subsection \<open>Index and Replace\<close>

lemma bytes_Index_absent: "c \<notin> set s \<Longrightarrow> bytes_Index s [c] = - 1"
  by (induction s) (auto simp: Let_def)

lemma bytes_Index_nonneg_or_absent: "- 1 \<le> bytes_Index s sep"
  by (induction s) (auto simp: Let_def)

lemma bytes_Index_first: "c \<notin> set p \<Longrightarrow> bytes_Index (p @ c # r) [c] = int (length p)"
  by (induction p) (auto simp: Let_def)

lemma bytes_Replace_two:
  "x \<noteq> y \<Longrightarrow>
   bytes_Replace (a @ [x, y] @ b) [x, y] new = bytes_Replace a [x, y] new @ new @ bytes_Replace b [x, y] new"
proof (induction a "[x, y]" new rule: bytes_Replace.induct)
  case (1 new)
  then show ?case by simp
next
  case (2 c r new)
  show ?case
  proof (cases "prefix [x, y] (c # r)")
    case True
    then obtain r' where r: "c = x" "r = y # r'" by (auto simp: prefix_def)
    with 2 show ?thesis by simp
  next
    case False
    then have nf: "\<not> prefix [x, y] (c # (r @ [x, y] @ b))"
      using "2.prems" by (cases r) auto
    have e1: "bytes_Replace (c # r) [x, y] new = c # bytes_Replace r [x, y] new"
      using False by auto
    have e2: "bytes_Replace (c # (r @ [x, y] @ b)) [x, y] new =
        c # bytes_Replace (r @ [x, y] @ b) [x, y] new"
      using nf by auto
    have ih: "bytes_Replace (r @ [x, y] @ b) [x, y] new =
        bytes_Replace r [x, y] new @ new @ bytes_Replace b [x, y] new"
      using "2.hyps"(2) False "2.prems" by auto
    have "bytes_Replace ((c # r) @ [x, y] @ b) [x, y] new =
        bytes_Replace (c # (r @ [x, y] @ b)) [x, y] new"
      by (simp only: append_Cons)
    also have "\<dots> = c # (bytes_Replace r [x, y] new @ new @ bytes_Replace b [x, y] new)"
      by (simp only: e2 ih)
    also have "\<dots> = bytes_Replace (c # r) [x, y] new @ new @ bytes_Replace b [x, y] new"
      by (simp only: e1 append_Cons)
    finally show ?thesis .
  qed
qed

lemma bytes_Replace_none:
  "\<not> sublist [x, y] s \<Longrightarrow> bytes_Replace s [x, y] new = s"
proof (induction s)
  case Nil
  then show ?case by simp
next
  case (Cons c r)
  then show ?case by (auto simp: sublist_Cons_right)
qed

lemma bytes_Replace_hd:
  "x \<noteq> y \<Longrightarrow> z \<noteq> y \<Longrightarrow> bytes_Replace r [x, y] [z] = y # t \<Longrightarrow> \<exists>r'. r = y # r'"
  by (cases r) (auto split: if_splits)

lemma bytes_Replace_clean:
  "x \<noteq> y \<Longrightarrow> z \<noteq> x \<Longrightarrow> z \<noteq> y \<Longrightarrow> \<not> sublist [x, y] (bytes_Replace s [x, y] [z])"
proof (induction s "[x, y]" "[z]" rule: bytes_Replace.induct)
  case 1
  then show ?case by simp
next
  case (2 c r)
  show ?case
  proof (cases "prefix [x, y] (c # r)")
    case True
    with 2 show ?thesis by (auto simp: sublist_Cons_right)
  next
    case False
    have "\<not> prefix [x, y] (c # bytes_Replace r [x, y] [z])"
    proof
      assume "prefix [x, y] (c # bytes_Replace r [x, y] [z])"
      then obtain t where "c = x" "bytes_Replace r [x, y] [z] = y # t"
        by (auto simp: prefix_def)
      with bytes_Replace_hd [OF "2.prems"(1) "2.prems"(3)] obtain r' where "c = x" "r = y # r'"
        by blast
      with False show False by simp
    qed
    with False 2 show ?thesis by (auto simp: sublist_Cons_right)
  qed
qed

lemma dot_index_absent: "CHR ''.'' \<notin> set s \<Longrightarrow> bytes_Index s dot = - 1"
  by (simp add: dot_def bytes_Index_absent)

lemma dot_index_first: "CHR ''.'' \<notin> set p \<Longrightarrow> bytes_Index (p @ ''.'' @ r) dot = int (length p)"
  using bytes_Index_first [of "CHR ''.''" p r] by (simp add: dot_def)

section \<open>The loop of \<open>Callers\<close>\<close>

lemma sint_succ: "sint (i :: go_int) < sint (l :: go_int) \<Longrightarrow> sint (i + 1) = sint i + 1"
proof -
  assume a: "sint i < sint l"
  have "sint l < 2 ^ 63" using sint_lt [of l] by simp
  with a have hi: "sint i + 1 < 2 ^ 63" by simp
  have "- (2 ^ 63) \<le> sint i" using sint_ge [of i] by simp
  then have lo: "- (2 ^ 63) \<le> sint i + 1" by simp
  from lo hi have "signed_take_bit 63 (sint i + 1) = sint i + 1"
    by (simp add: signed_take_bit_int_eq_self)
  then show ?thesis by (simp add: sint_word_ariths)
qed

lemma Callers_emit_eq:
  "Callers_emit fr prev b = Inr (Some (bytes_of b @ (if prev then '' '' else []) @ location fr), True)"
  by (cases b) (auto simp: Callers_emit_def go_append_def bytes_of_def location_def itoa_dec_int)

lemma Callers_loop_window:
  "frames \<noteq> [] \<Longrightarrow>
   Callers_loop frames i n max' prev b =
     Inr (emit_list b prev (window_from (sint n) (sint (n + max')) (sint i) frames))"
proof (induction frames arbitrary: i prev b rule: list_nonempty_induct)
  case (single f)
  show ?case
  proof (cases "sint i < sint (n + max')")
    case False
    then show ?thesis
      by (subst Callers_loop.simps) (simp add: word_sless_alt window_from_def)
  next
    case True
    show ?thesis
    proof (cases "sint n \<le> sint i")
      case True
      with \<open>sint i < sint (n + max')\<close> show ?thesis
        by (subst Callers_loop.simps)
          (simp add: word_sless_alt word_sle_eq window_from_def Frames_Next_def Callers_emit_eq)
    next
      case False
      with \<open>sint i < sint (n + max')\<close> show ?thesis
        by (subst Callers_loop.simps)
          (simp add: word_sless_alt word_sle_eq window_from_def Frames_Next_def)
    qed
  qed
next
  case (cons f fs)
  show ?case
  proof (cases "sint i < sint (n + max')")
    case False
    then show ?thesis
      by (subst Callers_loop.simps) (simp add: word_sless_alt window_from_def)
  next
    case lt: True
    then have s1: "sint (i + 1) = sint i + 1" by (rule sint_succ)
    show ?thesis
    proof (cases "sint n \<le> sint i")
      case True
      have "nat (sint (n + max') - sint i) = Suc (nat (sint (n + max') - (sint i + 1)))"
        using lt by simp
      moreover have "max (sint i) (sint n) = sint i" "max (sint i + 1) (sint n) = sint i + 1"
        using True by simp_all
      moreover have "nat (sint n - sint i) = 0" "nat (sint n - (sint i + 1)) = 0"
        using True by simp_all
      ultimately have w: "window_from (sint n) (sint (n + max')) (sint i) (f # fs) =
          f # window_from (sint n) (sint (n + max')) (sint (i + 1)) fs"
        by (simp add: window_from_def s1)
      show ?thesis using lt True cons.hyps cons.IH [of "i + 1"]
        by (subst Callers_loop.simps)
          (simp add: word_sless_alt word_sle_eq Frames_Next_def Callers_emit_eq w)
    next
      case False
      then have "nat (sint n - sint i) = Suc (nat (sint n - (sint i + 1)))" by simp
      moreover have "max (sint i) (sint n) = sint n" "max (sint i + 1) (sint n) = sint n"
        using False by simp_all
      ultimately have w: "window_from (sint n) (sint (n + max')) (sint i) (f # fs) =
          window_from (sint n) (sint (n + max')) (sint (i + 1)) fs"
        by (simp add: window_from_def s1)
      show ?thesis using lt False cons.hyps cons.IH [of "i + 1"]
        by (subst Callers_loop.simps)
          (simp add: word_sless_alt word_sle_eq Frames_Next_def w)
    qed
  qed
qed

lemma emit_list_Some:
  "emit_list (Some s) True fs = Some (s @ concat (map (\<lambda>f. '' '' @ location f) fs))"
  by (induction fs arbitrary: s) (simp_all add: bytes_of_def)

lemma join_space_Cons: "join_space (x # xs) = x @ concat (map (\<lambda>y. '' '' @ y) xs)"
  by (induction xs arbitrary: x) simp_all

lemma emit_list_None:
  "emit_list None False fs = (if fs = [] then None else Some (join_space (map location fs)))"
proof (cases fs)
  case Nil
  then show ?thesis by simp
next
  case (Cons f r)
  then show ?thesis
    by (simp add: emit_list_Some join_space_Cons bytes_of_def comp_def)
qed

lemma sint_double: "0 \<le> sint (m :: go_int) \<Longrightarrow> sint m < 2 ^ 62 \<Longrightarrow> sint (m * 2) = 2 * sint m"
proof -
  assume a: "0 \<le> sint m" and b: "sint m < 2 ^ 62"
  then have "- (2 ^ 63) \<le> sint m * 2" "sint m * 2 < 2 ^ 63" by simp_all
  then have "signed_take_bit 63 (sint m * 2) = sint m * 2"
    by (simp add: signed_take_bit_int_eq_self)
  then show ?thesis by (simp add: sint_word_ariths)
qed

lemma sint_sum_wrapped:
  assumes "0 \<le> sint (n :: go_int)" and "0 \<le> sint (m :: go_int)" and "2 ^ 63 \<le> sint n + sint m"
  shows "sint (n + m) < 0"
proof -
  define k where "k = sint n + sint m"
  have hi: "k < 2 ^ 64" using sint_lt [of n] sint_lt [of m] by (simp add: k_def)
  have lo: "2 ^ 63 \<le> k" using assms(3) by (simp add: k_def)
  have "k + 2 ^ 63 = k - 2 ^ 63 + 2 ^ 64" by simp
  then have "(k + 2 ^ 63) mod 2 ^ 64 = (k - 2 ^ 63 + 2 ^ 64) mod 2 ^ 64" by (simp only:)
  also have "\<dots> = (k - 2 ^ 63) mod 2 ^ 64" by (simp only: mod_add_self2)
  also have "\<dots> = k - 2 ^ 63" using hi lo by simp
  finally have "signed_take_bit 63 k = k - 2 ^ 64"
    by (simp add: signed_take_bit_eq_take_bit_shift take_bit_eq_mod)
  then have "sint (n + m) = k - 2 ^ 64" by (simp add: sint_word_ariths k_def)
  with hi show ?thesis by simp
qed

lemma sint_sum_exact:
  assumes "0 \<le> sint (n :: go_int)" and "0 \<le> sint (m :: go_int)" and "sint n + sint m < 2 ^ 63"
  shows "sint (n + m) = sint n + sint m"
proof -
  have "- (2 ^ 63) \<le> sint n + sint m" using assms(1,2) by simp
  with assms(3) have "signed_take_bit 63 (sint n + sint m) = sint n + sint m"
    by (simp add: signed_take_bit_int_eq_self)
  then show ?thesis by (simp add: sint_word_ariths)
qed

lemma batch_size_bound:
  assumes "0 \<le> sint (max' :: go_int)" and "16 * sint max' \<le> uint (maxAlloc :: uintptr)"
  shows "sint max' < 2 ^ 60"
proof -
  have "uint maxAlloc < 2 ^ 64" using uint_lt2p [of maxAlloc] by simp
  with assms(2) show ?thesis by simp
qed

lemma make_uintptr_granted:
  assumes "0 \<le> sint max'" and "16 * sint max' \<le> uint maxAlloc"
  shows "make_uintptr maxAlloc (max' * 2) = Inr (2 * nat (sint max'))"
proof -
  have b: "sint max' < 2 ^ 60" using assms by (rule batch_size_bound)
  then have b2: "sint max' < 2 ^ 62" by simp
  have d: "sint (max' * 2) = 2 * sint max'" using assms(1) b2 by (rule sint_double)
  then have nn: "0 \<le> sint (max' * 2)" using assms(1) by simp
  then have u: "unat (max' * 2) = 2 * nat (sint max')"
    using d assms(1) by (simp add: unat_nonneg nat_mult_distrib)
  have "int (8 * unat (max' * 2)) = 16 * sint max'" using u assms(1) by simp
  moreover have "int (unat maxAlloc) = uint maxAlloc" by simp
  ultimately have le: "8 * unat (max' * 2) \<le> unat maxAlloc"
    using assms(2) by (metis of_nat_le_iff)
  have "unat maxAlloc < 2 ^ 64" using unsigned_less [of maxAlloc, where ?'a = nat] by simp
  with le have no: "8 * unat (max' * 2) < 2 ^ 64" by simp
  from nn le no d assms(1) show ?thesis
    by (simp add: make_uintptr_def word_sless_alt nat_mult_distrib not_less [symmetric])
qed

lemma Callers_batch:
  assumes "0 \<le> sint max'" and "16 * sint max' \<le> uint maxAlloc"
  shows "Callers maxAlloc stk n max' =
     Inr (emit_list None False
       (window_from (sint n) (sint (n + max')) 0 (take (2 * nat (sint max')) stk)))"
proof -
  have mk: "make_uintptr maxAlloc (max' * 2) = Inr (2 * nat (sint max'))"
    using assms by (rule make_uintptr_granted)
  define pc where "pc = take (2 * nat (sint max')) stk"
  have c: "Callers maxAlloc stk n max' =
      (if pc = [] then Inr None else Callers_loop pc 0 n max' False None)"
    using mk by (simp add: Callers_def runtime_Callers_def pc_def)
  have "Callers maxAlloc stk n max' =
      Inr (emit_list None False (window_from (sint n) (sint (n + max')) 0 pc))"
  proof (cases "pc = []")
    case True
    then show ?thesis using c by (simp add: window_from_def)
  next
    case False
    then show ?thesis using c by (simp add: Callers_loop_window)
  qed
  then show ?thesis by (simp only: pc_def)
qed

lemma take_within_batch:
  assumes "min (a + m) (length xs) \<le> max a (2 * m)"
  shows "take m (drop a (take (2 * m) xs)) = take m (drop a xs)"
proof -
  have e: "take m (drop a (take (2 * m) xs)) = take (min m (2 * m - a)) (drop a xs)"
    by (simp add: drop_take)
  consider "a \<le> m" | "length xs \<le> a" | "length xs \<le> 2 * m" | "m = 0"
    using assms by (auto simp: min_def max_def split: if_splits)
  then show ?thesis
  proof cases
    case 1
    then have "min m (2 * m - a) = m" by simp
    with e show ?thesis by simp
  next
    case 2
    then show ?thesis by simp
  next
    case 3
    then have "length (drop a xs) \<le> 2 * m - a" by simp
    then have "take (2 * m - a) (drop a xs) = drop a xs" by simp
    then show ?thesis by (simp add: drop_take)
  next
    case 4
    then show ?thesis by simp
  qed
qed

lemma window_when_batch_covers:
  assumes "0 \<le> sint (n :: go_int)" and "0 \<le> sint (max' :: go_int)" and "sint max' < 2 ^ 60"
    and "min (nat (sint n) + nat (sint max')) (length stk) \<le> max (nat (sint n)) (2 * nat (sint max'))"
  shows "window_from (sint n) (sint (n + max')) 0 (take (2 * nat (sint max')) stk) =
     take (nat (sint max')) (drop (nat (sint n)) stk)"
proof (cases "sint n + sint max' < 2 ^ 63")
  case True
  have s: "sint (n + max') = sint n + sint max'" using assms(1,2) True by (rule sint_sum_exact)
  have "window_from (sint n) (sint (n + max')) 0 (take (2 * nat (sint max')) stk) =
      take (nat (sint max')) (drop (nat (sint n)) (take (2 * nat (sint max')) stk))"
    using assms(1) by (simp add: window_from_def s)
  also have "\<dots> = take (nat (sint max')) (drop (nat (sint n)) stk)"
    using assms(4) by (rule take_within_batch)
  finally show ?thesis .
next
  case False
  then have w: "sint (n + max') < 0" using assms(1,2) by (simp add: sint_sum_wrapped)
  then have l: "window_from (sint n) (sint (n + max')) 0 (take (2 * nat (sint max')) stk) = []"
    using assms(1) by (simp add: window_from_def)
  have "sint n < 2 ^ 63" using sint_lt [of n] by simp
  with False have mpos: "0 < sint max'" by simp
  from False assms(3) have "2 * sint max' < sint n" by simp
  then have "max (nat (sint n)) (2 * nat (sint max')) = nat (sint n)"
    using assms(2) by (simp add: max_def)
  with assms(4) mpos have "length stk \<le> nat (sint n)"
    by (simp add: min_def split: if_splits)
  then have "take (nat (sint max')) (drop (nat (sint n)) stk) = []" by simp
  with l show ?thesis by simp
qed

lemma location_nonempty: "location fr \<noteq> []"
  by (simp add: location_def)

lemma dec_nat_last: "last (dec_nat k) = digit_char (k mod 10)"
  by (subst dec_nat.simps) simp

lemma dec_int_last: "is_digit (last (dec_int k))"
  by (simp add: dec_int_def dec_nat_last dec_nat_nonempty is_digit_digit_char)

lemma dec_int_nonempty: "dec_int k \<noteq> []"
  by (simp add: dec_int_def dec_nat_nonempty)

lemma location_last: "is_digit (last (location fr))"
  by (simp add: location_def dec_int_last dec_int_nonempty)

lemma join_space_nonempty: "xs \<noteq> [] \<Longrightarrow> last xs \<noteq> [] \<Longrightarrow> join_space xs \<noteq> []"
  by (induction xs rule: join_space.induct) auto

lemma join_space_last:
  "xs \<noteq> [] \<Longrightarrow> last xs \<noteq> [] \<Longrightarrow> last (join_space xs) = last (last xs)"
  by (induction xs rule: join_space.induct) (auto simp: join_space_nonempty)

lemma join_space_set: "set (join_space xs) \<subseteq> (\<Union>x \<in> set xs. set x) \<union> {CHR '' ''}"
  by (induction xs rule: join_space.induct) auto

lemma dec_nat_set: "c \<in> set (dec_nat k) \<Longrightarrow> is_digit c"
  using dec_nat_all_digits [of k] by (simp add: list_all_iff)

lemma dec_int_no_newline: "CHR 0x0A \<notin> set (dec_int k)"
proof
  assume "CHR 0x0A \<in> set (dec_int k)"
  then have "CHR 0x0A \<in> set (dec_nat (nat (- k))) \<or> CHR 0x0A \<in> set (dec_nat (nat k))"
    by (auto simp: dec_int_def split: if_splits)
  then have "is_digit (CHR 0x0A)" using dec_nat_set by blast
  then show False by (simp add: is_digit_def)
qed

lemma location_no_newline: "CHR 0x0A \<notin> set (File fr) \<Longrightarrow> CHR 0x0A \<notin> set (location fr)"
  by (simp add: location_def dec_int_no_newline)

lemma join_locations_no_newline:
  "\<forall>fr \<in> set w. CHR 0x0A \<notin> set (File fr) \<Longrightarrow> CHR 0x0A \<notin> set (join_space (map location w))"
proof
  assume a: "\<forall>fr \<in> set w. CHR 0x0A \<notin> set (File fr)" and b: "CHR 0x0A \<in> set (join_space (map location w))"
  from b join_space_set [of "map location w"]
  have "CHR 0x0A \<in> (\<Union>x \<in> set (map location w). set x) \<union> {CHR '' ''}" by blast
  then obtain fr where "fr \<in> set w" "CHR 0x0A \<in> set (location fr)" by auto
  with a location_no_newline show False by blast
qed

lemma join_locations_last:
  "w \<noteq> [] \<Longrightarrow> join_space (map location w) \<noteq> [] \<and> is_digit (last (join_space (map location w)))"
proof -
  assume ne: "w \<noteq> []"
  then have a: "map location w \<noteq> []" by simp
  have b: "last (map location w) = location (last w)" using ne by (simp add: last_map)
  then have c: "last (map location w) \<noteq> []" by (simp add: location_nonempty)
  from a c b show ?thesis
    by (simp add: join_space_last join_space_nonempty location_last)
qed

lemma emit_list_not_empty: "emit_list None False w \<noteq> Some []"
proof (cases "w = []")
  case True
  then show ?thesis by simp
next
  case False
  then show ?thesis using join_locations_last [OF False] by (simp add: emit_list_None)
qed

lemma Callers_loop_not_empty: "frames \<noteq> [] \<Longrightarrow> Callers_loop frames i n max' False None \<noteq> Inr (Some [])"
  by (simp add: Callers_loop_window emit_list_not_empty)

section \<open>The loop of \<open>stack\<close>\<close>

lemma stack_loop_frames:
  "stack_loop R F stk i s = stack_frames R F (drop i stk) s"
proof (induction R F stk i s rule: stack_loop.induct)
  case (1 R F stk i s)
  show ?case
  proof (cases "i < length stk")
    case False
    then show ?thesis
      by (subst stack_loop.simps) (simp add: runtime_Caller_def stack_frames_def)
  next
    case True
    then have c: "runtime_Caller stk i = Some (stk ! i)" by (simp add: runtime_Caller_def)
    have d: "drop i stk = stk ! i # drop (i + 1) stk"
      using True by (simp add: Cons_nth_drop_Suc)
    have "stack_loop R F stk i s = stack_loop R F stk (i + 1) (stack_frame R F (stk ! i) s)"
      using c by (subst stack_loop.simps) simp
    also have "\<dots> = stack_frames R F (drop (i + 1) stk) (stack_frame R F (stk ! i) s)"
      using "1.IH" [OF c] .
    also have "\<dots> = stack_frames R F (drop i stk) s"
      by (simp only: d stack_frames_def foldl_Cons)
    finally show ?thesis .
  qed
qed

lemma stack_run_frames: "stack_run R F stk = stack_frames R F (drop 2 stk) init_state"
  by (simp add: stack_run_def stack_loop_frames)

lemma stack_frames_Nil: "stack_frames R F [] s = s"
  by (simp add: stack_frames_def)

lemma stack_frames_Cons: "stack_frames R F (fr # frs) s = stack_frames R F frs (stack_frame R F fr s)"
  by (simp add: stack_frames_def)

lemma stack_frames_append:
  "stack_frames R F (xs @ ys) s = stack_frames R F ys (stack_frames R F xs s)"
  by (simp add: stack_frames_def)

lemma stack_frame_read_fails:
  "File fr \<noteq> lastFile s \<Longrightarrow> R (File fr) = None \<Longrightarrow>
   stack_frame R F fr s = s\<lparr>buf := buf s @ location_line fr, reads := reads s @ [File fr]\<rparr>"
  by (simp add: stack_frame_def Let_def)

lemma stack_frame_reads:
  "reads (stack_frame R F fr s) = (if File fr \<noteq> lastFile s then reads s @ [File fr] else reads s)"
  by (simp add: stack_frame_def Let_def split: option.splits)

lemma stack_frame_lastFile:
  "lastFile (stack_frame R F fr s) =
     (if File fr \<noteq> lastFile s \<and> R (File fr) \<noteq> None then File fr else lastFile s)"
  by (auto simp: stack_frame_def Let_def split: option.splits)

lemma stack_frames_lastFile_loaded:
  "lastFile s = [] \<or> R (lastFile s) \<noteq> None \<Longrightarrow>
   lastFile (stack_frames R F frs s) = [] \<or> R (lastFile (stack_frames R F frs s)) \<noteq> None"
proof (induction frs arbitrary: s)
  case Nil
  then show ?case by (simp add: stack_frames_Nil)
next
  case (Cons fr frs)
  have "lastFile (stack_frame R F fr s) = [] \<or> R (lastFile (stack_frame R F fr s)) \<noteq> None"
    using Cons.prems by (auto simp: stack_frame_lastFile)
  then show ?case by (simp only: stack_frames_Cons Cons.IH)
qed

lemma stack_frames_count_reads:
  "R f = None \<Longrightarrow> f \<noteq> [] \<Longrightarrow> lastFile s = [] \<or> R (lastFile s) \<noteq> None \<Longrightarrow>
   count_list (reads (stack_frames R F frs s)) f =
     count_list (reads s) f + count_list (map File frs) f"
proof (induction frs arbitrary: s)
  case Nil
  then show ?case by (simp add: stack_frames_Nil)
next
  case (Cons fr frs)
  have inv: "lastFile (stack_frame R F fr s) = [] \<or> R (lastFile (stack_frame R F fr s)) \<noteq> None"
    using Cons.prems(3) by (auto simp: stack_frame_lastFile)
  have neq: "f \<noteq> lastFile s" using Cons.prems by auto
  have "count_list (reads (stack_frame R F fr s)) f =
      count_list (reads s) f + (if File fr = f then 1 else 0)"
    using neq by (auto simp: stack_frame_reads)
  with Cons.IH [OF Cons.prems(1) Cons.prems(2) inv] show ?case
    by (simp add: stack_frames_Cons)
qed

lemma hex_digit_numerals:
  "hex_digit 0 = CHR ''0''" "hex_digit 1 = CHR ''1''" "hex_digit 2 = CHR ''2''"
  "hex_digit 3 = CHR ''3''" "hex_digit 4 = CHR ''4''" "hex_digit 5 = CHR ''5''"
  "hex_digit 6 = CHR ''6''" "hex_digit 7 = CHR ''7''" "hex_digit 8 = CHR ''8''"
  "hex_digit 9 = CHR ''9''" "hex_digit 10 = CHR ''a''" "hex_digit 11 = CHR ''b''"
  "hex_digit 12 = CHR ''c''" "hex_digit 13 = CHR ''d''" "hex_digit 14 = CHR ''e''"
  "hex_digit 15 = CHR ''f''" "hex_digit (Suc 0) = CHR ''1''"
  by code_simp+

lemmas eval_trace = stack_def stack_run_frames stack_frames_def stack_frame_def init_state_def
  location_line_def source_line_def fmt_d_def fmt_x_def dec_int_def dec_nat.simps
  hex_nat.simps digit_char_numerals hex_digit_numerals function_pc_def source_def dunno_def
  skipped_frames_def same_file_stack_def nameless_stack_def Let_def word_sless_alt

lemma stack_frame_buf_grows: "\<exists>t. buf (stack_frame R F fr s) = buf s @ t"
  by (simp add: stack_frame_def Let_def split: option.splits)

lemma stack_frames_buf_grows: "\<exists>t. buf (stack_frames R F frs s) = buf s @ t"
proof (induction frs arbitrary: s)
  case Nil
  then show ?case by (simp add: stack_frames_Nil)
next
  case (Cons fr frs)
  obtain t where t: "buf (stack_frame R F fr s) = buf s @ t"
    using stack_frame_buf_grows by blast
  obtain u where "buf (stack_frames R F frs (stack_frame R F fr s)) = buf (stack_frame R F fr s) @ u"
    using Cons.IH by blast
  with t show ?case by (simp add: stack_frames_Cons)
qed

text \<open>
  The path of a named file that cannot be read. For a frame of the trace whose file
  has a non-empty name and cannot be read, \<open>stack\<close> appends the location line of the
  frame and nothing else: the buffer grows by that line, \<open>lines\<close> and \<open>lastFile\<close> stay
  as they were, and the run goes on with the following frames. The returned text is
  the text of the earlier frames, then the location line, then the rest.
\<close>

lemma stack_unreadable_file_location_only:
  assumes "ReadFile (File fr) = None" and "File fr \<noteq> []" and "drop 2 stk = pre @ fr # post"
  shows "stack_run ReadFile FuncForPC stk =
           stack_frames ReadFile FuncForPC post
             ((stack_frames ReadFile FuncForPC pre init_state)
                \<lparr>buf := buf (stack_frames ReadFile FuncForPC pre init_state) @ location_line fr,
                 reads := reads (stack_frames ReadFile FuncForPC pre init_state) @ [File fr]\<rparr>) \<and>
         (\<exists>rest. stack ReadFile FuncForPC stk =
            buf (stack_frames ReadFile FuncForPC pre init_state) @ location_line fr @ rest)"
proof -
  define s where "s = stack_frames ReadFile FuncForPC pre init_state"
  define s' where "s' = s\<lparr>buf := buf s @ location_line fr, reads := reads s @ [File fr]\<rparr>"
  have "lastFile init_state = [] \<or> ReadFile (lastFile init_state) \<noteq> None"
    by (simp add: init_state_def)
  then have "lastFile s = [] \<or> ReadFile (lastFile s) \<noteq> None"
    unfolding s_def by (rule stack_frames_lastFile_loaded)
  with assms(1,2) have "File fr \<noteq> lastFile s" by auto
  then have step: "stack_frame ReadFile FuncForPC fr s = s'"
    unfolding s'_def using assms(1) by (rule stack_frame_read_fails)
  have "stack_run ReadFile FuncForPC stk = stack_frames ReadFile FuncForPC (pre @ fr # post) init_state"
    by (simp only: stack_run_frames assms(3))
  also have "\<dots> = stack_frames ReadFile FuncForPC post s'"
    by (simp only: stack_frames_append stack_frames_Cons s_def [symmetric] step)
  finally have run: "stack_run ReadFile FuncForPC stk = stack_frames ReadFile FuncForPC post s'" .
  obtain rest where "buf (stack_frames ReadFile FuncForPC post s') = buf s' @ rest"
    using stack_frames_buf_grows by blast
  then have "stack ReadFile FuncForPC stk = buf s @ location_line fr @ rest"
    using run by (simp add: stack_def s'_def)
  with run show ?thesis unfolding s'_def s_def by blast
qed

text \<open>Two frames from the unreadable file \<open>a.go\<close>: two location lines.\<close>

lemma stack_unreadable_file_location_only_example:
  "stack (\<lambda>name. None) (\<lambda>pc. None) same_file_stack =
     ''a.go:10 (0x10)'' @ [CHR 0x0A] @ ''a.go:20 (0x20)'' @ [CHR 0x0A]"
proof -
  let ?fr = "\<lparr>PC = 0x10, File = ''a.go'', Line = 10\<rparr>"
  let ?R = "\<lambda>name :: string. None :: string option"
  let ?F = "\<lambda>pc :: uintptr. None :: string option"
  have h: "?R (File ?fr) = None" "File ?fr \<noteq> []"
    "drop 2 same_file_stack = [] @ ?fr # [\<lparr>PC = 0x20, File = ''a.go'', Line = 20\<rparr>]"
    by (simp_all add: same_file_stack_def skipped_frames_def)
  from stack_unreadable_file_location_only [OF h, of ?F]
  have "stack_run ?R ?F same_file_stack =
      stack_frames ?R ?F [\<lparr>PC = 0x20, File = ''a.go'', Line = 20\<rparr>]
        ((stack_frames ?R ?F [] init_state)
           \<lparr>buf := buf (stack_frames ?R ?F [] init_state) @ location_line ?fr,
            reads := reads (stack_frames ?R ?F [] init_state) @ [File ?fr]\<rparr>)"
    by blast
  then show ?thesis
    by (simp add: stack_def stack_frames_def stack_frame_def init_state_def location_line_def
        fmt_d_def fmt_x_def dec_int_def dec_nat.simps hex_nat.simps digit_char_numerals
        hex_digit_numerals Let_def)
qed

section \<open>Claims on the integer encoder\<close>

text \<open>
  Claim C2. For every non-negative \<open>int\<close> \<open>n\<close> the text \<open>itoa n\<close>, parsed as a base-10
  integer, is \<open>n\<close>; the same holds of \<open>uitoa u\<close> for every \<open>uint\<close> \<open>u\<close>; neither
  panics; and the text for zero is exactly \<open>0\<close>.
\<close>

theorem toDecimal_roundtrip:
  "0 \<le>s n \<Longrightarrow>
     (\<exists>s. itoa n = Inr s \<and> parse_decimal s = Some (sint n)) \<and>
     (\<exists>t. uitoa u = Inr t \<and> parse_decimal t = Some (uint u)) \<and>
     itoa 0 = Inr ''0'' \<and> uitoa 0 = Inr ''0''"
proof -
  have a: "parse_decimal (dec_int (sint n)) = Some (sint n)"
    by (rule parse_decimal_dec_int)
  have "parse_decimal (dec_int (uint u)) = Some (uint u)"
    by (rule parse_decimal_dec_int)
  moreover have "dec_int (uint u) = dec_nat (unat u)"
    by (simp add: dec_int_def)
  ultimately have b: "parse_decimal (dec_nat (unat u)) = Some (uint u)"
    by simp
  have c: "uitoa 0 = Inr ''0''" by (simp add: uitoa_def)
  have d: "itoa 0 = Inr ''0''" by (simp add: itoa_def uitoa_def)
  from a b c d show ?thesis by (simp add: itoa_dec_int uitoa_dec_nat)
qed

text \<open>The round trip at \<open>1234\<close> and at the largest \<open>uint\<close>.\<close>

theorem toDecimal_roundtrip_witness:
  "(0 :: go_int) \<le>s 1234 \<and> itoa 1234 = Inr ''1234'' \<and> parse_decimal ''1234'' = Some 1234 \<and>
   uitoa 18446744073709551615 = Inr ''18446744073709551615'' \<and>
   parse_decimal ''18446744073709551615'' = Some 18446744073709551615"
proof -
  have h: "(0 :: go_int) \<le>s 1234" by (simp add: word_sle_eq)
  have i: "itoa 1234 = Inr ''1234''"
    by (simp add: itoa_dec_int dec_int_def dec_nat.simps digit_char_numerals)
  have u: "uitoa 18446744073709551615 = Inr ''18446744073709551615''"
    by (simp add: uitoa_dec_nat dec_nat.simps digit_char_numerals)
  from toDecimal_roundtrip [OF h, of 18446744073709551615] h i u show ?thesis by simp
qed

text \<open>
  Claim C3, as amended. For every negative \<open>int\<close> \<open>n\<close> the text \<open>itoa n\<close> is a \<open>-\<close>
  followed by the encoding of the magnitude: the text \<open>uitoa (uint (-n))\<close>, whose
  argument read unsigned is \<open>-n\<close> and which parses back to \<open>-n\<close>. For every negative
  \<open>n\<close> but the least \<open>int\<close>, that remainder is also \<open>itoa (-n)\<close>.
\<close>

theorem itoa_negative:
  "n <s 0 \<Longrightarrow>
     \<exists>s. itoa n = Inr (CHR ''-'' # s) \<and> uitoa (- n) = Inr s \<and>
         int (unat (- n)) = - sint n \<and> parse_decimal s = Some (- sint n) \<and>
         (n \<noteq> - 9223372036854775808 \<longrightarrow> itoa (- n) = Inr s)"
proof -
  assume neg: "n <s 0"
  then have sn: "sint n < 0" by (simp add: word_sless_alt)
  define s where "s = dec_nat (unat (- n))"
  have u: "uitoa (- n) = Inr s" by (simp add: s_def uitoa_dec_nat)
  have i: "itoa n = Inr (CHR ''-'' # s)" using neg u by (simp add: itoa_def)
  have m: "int (unat (- n)) = - sint n" using sn by (simp add: unat_neg)
  have "parse_decimal (dec_int (- sint n)) = Some (- sint n)"
    by (rule parse_decimal_dec_int)
  then have p: "parse_decimal s = Some (- sint n)"
    using sn by (simp add: dec_int_def s_def unat_neg)
  have r: "itoa (- n) = Inr s" if "n \<noteq> - 9223372036854775808"
  proof -
    have "sint (- n) = - sint n" using sn that by (rule sint_neg_not_min)
    with sn have "\<not> - n <s 0" by (simp add: word_sless_alt)
    then show ?thesis using u by (simp add: itoa_def)
  qed
  from i u m p r show ?thesis by blast
qed

text \<open>The negative case at \<open>-45\<close>.\<close>

theorem itoa_negative_witness:
  "(- 45 :: go_int) <s 0 \<and> itoa (- 45) = Inr ''-45'' \<and> uitoa (- (- 45)) = Inr ''45'' \<and>
   itoa (- (- 45)) = Inr ''45'' \<and> parse_decimal ''45'' = Some 45"
proof -
  have h: "(- 45 :: go_int) <s 0" by (simp add: word_sless_alt)
  have u: "uitoa (- (- 45)) = Inr ''45''"
    by (simp add: uitoa_dec_nat dec_nat.simps digit_char_numerals)
  from itoa_negative [OF h] h u show ?thesis by auto
qed

text \<open>
  Claim C3 as first stated fails at the least \<open>int\<close>: its negation wraps to itself, so
  \<open>itoa (-n)\<close> is the same text as \<open>itoa n\<close>, with the sign, and is not the remainder
  after the sign.
\<close>

theorem itoa_negation_least_int_counterexample:
  "(- 9223372036854775808 :: go_int) <s 0 \<and>
   itoa (- 9223372036854775808) = Inr (CHR ''-'' # ''9223372036854775808'') \<and>
   itoa (- (- 9223372036854775808)) = Inr ''-9223372036854775808'' \<and>
   ''9223372036854775808'' \<noteq> ''-9223372036854775808''"
proof -
  have a: "(- 9223372036854775808 :: go_int) <s 0" by (simp add: word_sless_alt)
  have b: "itoa (- 9223372036854775808) = Inr (CHR ''-'' # ''9223372036854775808'')"
    by (simp add: itoa_dec_int dec_int_def dec_nat.simps digit_char_numerals)
  have "- (- 9223372036854775808 :: go_int) = - 9223372036854775808" by simp
  then have c: "itoa (- (- 9223372036854775808)) = Inr ''-9223372036854775808''"
    using b by (simp only:)
  from a b c show ?thesis by simp
qed

text \<open>
  Claim C10. At the least 64-bit \<open>int\<close> the text is \<open>-9223372036854775808\<close>: the
  negation wraps to the same value, the conversion to \<open>uint\<close> reads it as \<open>2 ^ 63\<close>, and
  the text parses back to the value.
\<close>

theorem itoa_min_int:
  "itoa (- 9223372036854775808) = Inr ''-9223372036854775808'' \<and>
   - (- 9223372036854775808 :: go_int) = - 9223372036854775808 \<and>
   unat (- (- 9223372036854775808 :: go_int)) = 2 ^ 63 \<and>
   uitoa (- (- 9223372036854775808)) = Inr ''9223372036854775808'' \<and>
   parse_decimal ''-9223372036854775808'' = Some (sint (- 9223372036854775808 :: go_int))"
proof -
  have a: "itoa (- 9223372036854775808) = Inr ''-9223372036854775808''"
    by (simp add: itoa_dec_int dec_int_def dec_nat.simps digit_char_numerals)
  have b: "- (- 9223372036854775808 :: go_int) = - 9223372036854775808" by simp
  have c: "unat (- (- 9223372036854775808 :: go_int)) = 2 ^ 63" by simp
  have d: "uitoa (- (- 9223372036854775808)) = Inr ''9223372036854775808''"
    by (simp add: uitoa_dec_nat dec_nat.simps digit_char_numerals)
  have e: "parse_decimal ''-9223372036854775808'' = Some (sint (- 9223372036854775808 :: go_int))"
    by (simp add: parse_decimal_def parse_nat_def is_digit_def digit_val_def)
  from a b c d e show ?thesis by blast
qed

section \<open>Claims on \<open>source\<close> and \<open>function\<close>\<close>

text \<open>
  Claim C4. \<open>source ls n\<close> is the sentinel \<open>???\<close> when \<open>n\<close> is negative or at least the
  number of lines. Otherwise it is line \<open>n\<close> without its leading and trailing spaces
  and tabs: the line is the result between a run of blanks on each side, and a
  non-empty result neither starts nor ends with a blank.
\<close>

theorem source_sentinel_or_trimmed:
  "(sint n < 0 \<or> int (length ls) \<le> sint n \<longrightarrow> source ls n = ''???'') \<and>
   (0 \<le> sint n \<and> sint n < int (length ls) \<longrightarrow>
      (\<exists>pre post. ls ! nat (sint n) = pre @ source ls n @ post \<and>
         set pre \<subseteq> {CHR '' '', CHR 0x09} \<and> set post \<subseteq> {CHR '' '', CHR 0x09}) \<and>
      (source ls n \<noteq> [] \<longrightarrow>
         hd (source ls n) \<notin> {CHR '' '', CHR 0x09} \<and>
         last (source ls n) \<notin> {CHR '' '', CHR 0x09}))"
proof -
  have out: "source ls n = ''???''" if "sint n < 0 \<or> int (length ls) \<le> sint n"
    using that by (auto simp: source_def dunno_def word_sless_alt)
  have inr: "source ls n = bytes_Trim (ls ! nat (sint n)) [CHR '' '', CHR 0x09]"
    if "0 \<le> sint n \<and> sint n < int (length ls)"
    using that by (auto simp: source_def word_sless_alt)
  have dec: "\<exists>pre post. ls ! nat (sint n) = pre @ source ls n @ post \<and>
         set pre \<subseteq> {CHR '' '', CHR 0x09} \<and> set post \<subseteq> {CHR '' '', CHR 0x09}"
    if "0 \<le> sint n \<and> sint n < int (length ls)"
    using bytes_Trim_decompose [of "ls ! nat (sint n)" "[CHR '' '', CHR 0x09]"] inr [OF that]
    by simp
  have ends: "hd (source ls n) \<notin> {CHR '' '', CHR 0x09} \<and>
         last (source ls n) \<notin> {CHR '' '', CHR 0x09}"
    if "0 \<le> sint n \<and> sint n < int (length ls)" and "source ls n \<noteq> []"
    using bytes_Trim_hd [of "ls ! nat (sint n)" "[CHR '' '', CHR 0x09]"]
      bytes_Trim_last [of "ls ! nat (sint n)" "[CHR '' '', CHR 0x09]"] inr [OF that(1)] that(2)
    by simp
  from out dec ends show ?thesis by blast
qed

text \<open>A two-line file, read at indices \<open>1\<close>, \<open>2\<close> and \<open>-1\<close>.\<close>

theorem source_sentinel_or_trimmed_witness:
  "source [''x := 1'', [CHR 0x09, CHR 0x09] @ ''return x  ''] 1 = ''return x'' \<and>
   source [''x := 1'', [CHR 0x09, CHR 0x09] @ ''return x  ''] 2 = ''???'' \<and>
   source [''x := 1'', [CHR 0x09, CHR 0x09] @ ''return x  ''] (- 1) = ''???'' \<and>
   hd (source [''x := 1'', [CHR 0x09, CHR 0x09] @ ''return x  ''] 1) \<notin> {CHR '' '', CHR 0x09}"
proof -
  let ?ls = "[''x := 1'', [CHR 0x09, CHR 0x09] @ ''return x  '']"
  have a: "source ?ls 1 = ''return x''"
    by (simp add: source_def bytes_Trim_def word_sless_alt)
  have b: "sint (2 :: go_int) < 0 \<or> int (length ?ls) \<le> sint (2 :: go_int)" by simp
  have c: "sint (- 1 :: go_int) < 0 \<or> int (length ?ls) \<le> sint (- 1 :: go_int)" by simp
  have d: "0 \<le> sint (1 :: go_int) \<and> sint (1 :: go_int) < int (length ?ls)" by simp
  have e: "source ?ls 1 \<noteq> []" using a by simp
  from source_sentinel_or_trimmed [of 2 ?ls] b have b': "source ?ls 2 = ''???''" by blast
  from source_sentinel_or_trimmed [of "- 1" ?ls] c have c': "source ?ls (- 1) = ''???''" by blast
  from source_sentinel_or_trimmed [of 1 ?ls] d e
  have d': "hd (source ?ls 1) \<notin> {CHR '' '', CHR 0x09}" by blast
  from a b' c' d' show ?thesis by blast
qed

text \<open>
  Claim C5. When the lookup succeeds with the raw name \<open>s\<close>, \<open>function\<close> returns the
  part of \<open>s\<close> after its first ordinary dot (all of \<open>s\<close> when it has none) with the
  center dots replaced. The result holds no center dot. The replacement turns each
  center dot into an ordinary dot and leaves a text without center dots as it is.
\<close>

theorem function_strips_package_and_center_dots:
  assumes "FuncForPC pc = Some s"
  shows "(CHR ''.'' \<notin> set s \<longrightarrow> function_pc FuncForPC pc = bytes_Replace s centerDot dot) \<and>
         (\<forall>p r. s = p @ ''.'' @ r \<and> CHR ''.'' \<notin> set p \<longrightarrow>
            function_pc FuncForPC pc = bytes_Replace r centerDot dot) \<and>
         \<not> sublist centerDot (function_pc FuncForPC pc) \<and>
         (\<forall>a b. bytes_Replace (a @ centerDot @ b) centerDot dot =
            bytes_Replace a centerDot dot @ ''.'' @ bytes_Replace b centerDot dot) \<and>
         (\<forall>t. \<not> sublist centerDot t \<longrightarrow> bytes_Replace t centerDot dot = t)"
proof -
  have nodot: "function_pc FuncForPC pc = bytes_Replace s centerDot dot" if "CHR ''.'' \<notin> set s"
    using assms dot_index_absent [OF that] by (simp add: function_pc_def)
  have strip: "function_pc FuncForPC pc = bytes_Replace r centerDot dot"
    if "s = p @ ''.'' @ r \<and> CHR ''.'' \<notin> set p" for p r
  proof -
    from that have "bytes_Index s dot = int (length p)" using dot_index_first [of p r] by simp
    moreover from that have "drop (nat (int (length p) + 1)) s = r" by (simp add: nat_add_distrib)
    ultimately show ?thesis using assms by (simp add: function_pc_def Let_def)
  qed
  have clean: "\<not> sublist centerDot (bytes_Replace t centerDot dot)" for t
    unfolding centerDot_def dot_def by (rule bytes_Replace_clean) simp_all
  have res: "\<exists>t. function_pc FuncForPC pc = bytes_Replace t centerDot dot"
    using assms by (auto simp: function_pc_def Let_def)
  have c: "\<not> sublist centerDot (function_pc FuncForPC pc)" using res clean by auto
  have d: "bytes_Replace (a @ centerDot @ b) centerDot dot =
            bytes_Replace a centerDot dot @ ''.'' @ bytes_Replace b centerDot dot" for a b
    unfolding centerDot_def dot_def by (rule bytes_Replace_two) simp
  have e: "bytes_Replace t centerDot dot = t" if "\<not> sublist centerDot t" for t
    using that unfolding centerDot_def by (rule bytes_Replace_none)
  from nodot strip c d e show ?thesis by blast
qed

text \<open>The raw name \<open>example/pkg.Type\<cdot>Method\<close> renders as \<open>Type.Method\<close>.\<close>

theorem function_strips_package_and_center_dots_witness:
  "function_pc (\<lambda>pc. Some (''example/pkg.Type'' @ [CHR 0xC2, CHR 0xB7] @ ''Method'')) 4096
     = ''Type.Method''"
proof -
  let ?F = "\<lambda>pc :: uintptr. Some (''example/pkg.Type'' @ [CHR 0xC2, CHR 0xB7] @ ''Method'')"
  have h: "?F 4096 = Some (''example/pkg.Type'' @ [CHR 0xC2, CHR 0xB7] @ ''Method'')" by simp
  have s: "''example/pkg.Type'' @ [CHR 0xC2, CHR 0xB7] @ ''Method'' =
      ''example/pkg'' @ ''.'' @ (''Type'' @ [CHR 0xC2, CHR 0xB7] @ ''Method'') \<and>
      CHR ''.'' \<notin> set ''example/pkg''" by simp
  from function_strips_package_and_center_dots [OF h] s
  have "function_pc ?F 4096 = bytes_Replace (''Type'' @ [CHR 0xC2, CHR 0xB7] @ ''Method'') centerDot dot"
    by blast
  then show ?thesis by (simp add: centerDot_def dot_def)
qed

section \<open>Claims on \<open>Callers\<close>\<close>

text \<open>
  Claim C1, as amended. Take \<open>skip \<ge> 0\<close> and \<open>max \<ge> 0\<close> such that the batch of \<open>max*2\<close>
  entries is within the allocation limit (\<open>16 * max\<close> bytes) and covers the window:
  no frame of the stack at an index from \<open>skip\<close> to \<open>skip+max-1\<close> lies at index
  \<open>2*max\<close> or beyond. Then \<open>Callers\<close> does not panic and returns the list as
  specified: the first \<open>skip\<close> frames are left out, up to \<open>max\<close> of the following ones
  are written as \<open>file:line\<close> with the line in decimal, joined by single spaces, and
  the list ends early on a short stack. A present result is not empty and ends with
  a digit, so there is no trailing separator; and it holds no newline unless the
  name of a written file does.
\<close>

theorem Callers_window:
  assumes "0 \<le>s n" and "0 \<le>s max'" and "16 * sint max' \<le> uint maxAlloc"
    and "min (nat (sint n) + nat (sint max')) (length stk)
           \<le> max (nat (sint n)) (2 * nat (sint max'))"
  shows "Callers maxAlloc stk n max' = Inr (spec_locations stk (nat (sint n)) (nat (sint max'))) \<and>
         (\<forall>out. Callers maxAlloc stk n max' = Inr (Some out) \<longrightarrow>
            out \<noteq> [] \<and> is_digit (last out) \<and> last out \<noteq> CHR '' '' \<and>
            ((\<forall>fr \<in> set (take (nat (sint max')) (drop (nat (sint n)) stk)). CHR 0x0A \<notin> set (File fr))
               \<longrightarrow> CHR 0x0A \<notin> set out))"
proof -
  define w where "w = take (nat (sint max')) (drop (nat (sint n)) stk)"
  have n0: "0 \<le> sint n" and m0: "0 \<le> sint max'"
    using assms(1,2) by (simp_all add: word_sle_eq)
  have mb: "sint max' < 2 ^ 60" using m0 assms(3) by (rule batch_size_bound)
  have "Callers maxAlloc stk n max' = Inr (emit_list None False w)"
    using Callers_batch [OF m0 assms(3)] window_when_batch_covers [OF n0 m0 mb assms(4)]
    by (simp add: w_def)
  then have eq: "Callers maxAlloc stk n max' =
      Inr (spec_locations stk (nat (sint n)) (nat (sint max')))"
    by (simp add: emit_list_None spec_locations_def w_def Let_def)
  have props: "out \<noteq> [] \<and> is_digit (last out) \<and> last out \<noteq> CHR '' '' \<and>
      ((\<forall>fr \<in> set w. CHR 0x0A \<notin> set (File fr)) \<longrightarrow> CHR 0x0A \<notin> set out)"
    if "Callers maxAlloc stk n max' = Inr (Some out)" for out
  proof -
    from that eq have ne: "w \<noteq> []" and out: "out = join_space (map location w)"
      by (auto simp: spec_locations_def w_def Let_def split: if_splits)
    have "\<not> is_digit (CHR '' '')" by (simp add: is_digit_def)
    with join_locations_last [OF ne] join_locations_no_newline [of w] out
    show ?thesis by auto
  qed
  from eq props show ?thesis unfolding w_def by blast
qed

text \<open>A stack of four frames under the limit \<open>2 ^ 48\<close>: two frames asked from index
  \<open>3\<close>, where one is left; the batch of four covers it.\<close>

theorem Callers_window_witness:
  "(0 :: go_int) \<le>s 3 \<and> (0 :: go_int) \<le>s 2 \<and> 16 * sint (2 :: go_int) \<le> uint (2 ^ 48 :: uintptr) \<and>
   min (nat (sint (3 :: go_int)) + nat (sint (2 :: go_int))) (length four_frames)
     \<le> max (nat (sint (3 :: go_int))) (2 * nat (sint (2 :: go_int))) \<and>
   Callers (2 ^ 48) four_frames 3 2 = Inr (Some ''d.go:4'')"
proof -
  have h: "(0 :: go_int) \<le>s 3" "(0 :: go_int) \<le>s 2"
    "16 * sint (2 :: go_int) \<le> uint (2 ^ 48 :: uintptr)"
    "min (nat (sint (3 :: go_int)) + nat (sint (2 :: go_int))) (length four_frames)
       \<le> max (nat (sint (3 :: go_int))) (2 * nat (sint (2 :: go_int)))"
    by (simp_all add: word_sle_eq four_frames_def three_frames_def)
  have "spec_locations four_frames (nat (sint (3 :: go_int))) (nat (sint (2 :: go_int)))
      = Some ''d.go:4''"
    by (simp add: spec_locations_def four_frames_def three_frames_def location_def dec_int_def
        dec_nat.simps digit_char_numerals)
  with Callers_window [OF h] h show ?thesis by simp
qed

text \<open>
  Claim C1 as first stated fails at three inputs, all under the limit \<open>2 ^ 48\<close>. With
  \<open>skip = 2\<close> and \<open>max = 1\<close> on a stack of three frames, the batch holds two frames and
  the result is absent, where the specified list is \<open>c.go:3\<close>. A file name with a
  newline puts the newline in the output. With \<open>max = 2 ^ 45\<close> the batch of \<open>2 ^ 46\<close>
  entries needs \<open>2 ^ 49\<close> bytes and \<open>make\<close> panics.
\<close>

theorem Callers_as_specified_counterexample:
  "Callers (2 ^ 48) three_frames 2 1 = Inr None \<and>
   spec_locations three_frames 2 1 = Some ''c.go:3'' \<and>
   Callers (2 ^ 48) [\<lparr>PC = 0x10, File = ''a'' @ [CHR 0x0A] @ ''b.go'', Line = 7\<rparr>] 0 1
     = Inr (Some (''a'' @ [CHR 0x0A] @ ''b.go:7'')) \<and>
   (0 :: go_int) \<le>s 2 ^ 45 \<and>
   Callers (2 ^ 48) three_frames 0 (2 ^ 45) = Inl MakeSliceLenOutOfRange"
proof -
  have m: "0 \<le> sint (1 :: go_int)" "16 * sint (1 :: go_int) \<le> uint (2 ^ 48 :: uintptr)"
    by simp_all
  have a: "Callers (2 ^ 48) three_frames 2 1 = Inr None"
    using Callers_batch [OF m, of three_frames 2]
    by (simp add: window_from_def three_frames_def)
  have b: "spec_locations three_frames 2 1 = Some ''c.go:3''"
    by (simp add: spec_locations_def three_frames_def location_def dec_int_def
        dec_nat.simps digit_char_numerals)
  have c: "Callers (2 ^ 48) [\<lparr>PC = 0x10, File = ''a'' @ [CHR 0x0A] @ ''b.go'', Line = 7\<rparr>] 0 1
     = Inr (Some (''a'' @ [CHR 0x0A] @ ''b.go:7''))"
    using Callers_batch [OF m, of "[\<lparr>PC = 0x10, File = ''a'' @ [CHR 0x0A] @ ''b.go'', Line = 7\<rparr>]" 0]
    by (simp add: window_from_def bytes_of_def location_def dec_int_def
        dec_nat.simps digit_char_numerals)
  have d: "(0 :: go_int) \<le>s 2 ^ 45" by (simp add: word_sle_eq)
  have e: "Callers (2 ^ 48) three_frames 0 (2 ^ 45) = Inl MakeSliceLenOutOfRange"
    by (simp add: Callers_def make_uintptr_def word_sless_alt)
  from a b c d e show ?thesis by blast
qed

text \<open>
  Claim C7. The batch that \<open>Callers\<close> asks of the runtime has \<open>max*2\<close> entries, not
  \<open>(skip+max)*2\<close>. With \<open>skip = 3\<close> and \<open>max = 1\<close> on a stack of four frames the batch is
  the first two frames, the loop runs out of frames inside the skip window, and the
  result is absent; the specified list is \<open>d.go:4\<close>, which the same loop writes on a
  batch of \<open>(skip+max)*2\<close> entries.
\<close>

theorem Callers_batch_is_twice_max:
  "make_uintptr (2 ^ 48) (1 * 2) = Inr 2 \<and>
   runtime_Callers four_frames 0 (nat (sint (1 * 2 :: go_int))) = take 2 four_frames \<and>
   Callers (2 ^ 48) four_frames 3 1 = Inr None \<and>
   spec_locations four_frames 3 1 = Some ''d.go:4'' \<and>
   Callers_loop (runtime_Callers four_frames 0 (nat (sint ((3 + 1) * 2 :: go_int)))) 0 3 1 False None
     = Inr (Some ''d.go:4'')"
proof -
  have m: "0 \<le> sint (1 :: go_int)" "16 * sint (1 :: go_int) \<le> uint (2 ^ 48 :: uintptr)"
    by simp_all
  have k: "make_uintptr (2 ^ 48) (1 * 2) = Inr 2"
    by (simp add: make_uintptr_def word_sless_alt)
  have a: "runtime_Callers four_frames 0 (nat (sint (1 * 2 :: go_int))) = take 2 four_frames"
    by (simp add: runtime_Callers_def)
  have b: "Callers (2 ^ 48) four_frames 3 1 = Inr None"
    using Callers_batch [OF m, of four_frames 3]
    by (simp add: window_from_def four_frames_def three_frames_def)
  have c: "spec_locations four_frames 3 1 = Some ''d.go:4''"
    by (simp add: spec_locations_def four_frames_def three_frames_def location_def dec_int_def
        dec_nat.simps digit_char_numerals)
  have "runtime_Callers four_frames 0 (nat (sint ((3 + 1) * 2 :: go_int))) = four_frames"
    by (simp add: runtime_Callers_def four_frames_def three_frames_def)
  moreover have "four_frames \<noteq> []" by (simp add: four_frames_def)
  ultimately have d: "Callers_loop (runtime_Callers four_frames 0
      (nat (sint ((3 + 1) * 2 :: go_int)))) 0 3 1 False None = Inr (Some ''d.go:4'')"
    by (simp add: Callers_loop_window window_from_def four_frames_def three_frames_def
        bytes_of_def location_def dec_int_def dec_nat.simps digit_char_numerals)
  from k a b c d show ?thesis by blast
qed

text \<open>
  Claim C9. When the runtime returns no frame for the batch, \<open>Callers\<close> returns the
  absent sequence, without a panic. The absent sequence differs from the present
  empty one, which \<open>Callers\<close> never returns.
\<close>

theorem Callers_no_frames_nil:
  "(\<forall>len. make_uintptr maxAlloc (max' * 2) = Inr len \<and> runtime_Callers stk 0 len = [] \<longrightarrow>
      Callers maxAlloc stk n max' = Inr None) \<and>
   Callers maxAlloc stk n max' \<noteq> Inr (Some []) \<and>
   (None :: string option) \<noteq> Some []"
proof -
  have a: "Callers maxAlloc stk n max' = Inr None"
    if "make_uintptr maxAlloc (max' * 2) = Inr len \<and> runtime_Callers stk 0 len = []" for len
    using that by (simp add: Callers_def)
  have b: "Callers maxAlloc stk n max' \<noteq> Inr (Some [])"
  proof (cases "make_uintptr maxAlloc (max' * 2)")
    case (Inl e)
    then show ?thesis by (simp add: Callers_def)
  next
    case (Inr len)
    then show ?thesis
      using Callers_loop_not_empty [of "runtime_Callers stk 0 len" 0 n max']
      by (simp add: Callers_def Let_def)
  qed
  from a b show ?thesis by blast
qed

text \<open>An empty stack, and a batch of no entries on a stack of four.\<close>

theorem Callers_no_frames_nil_witness:
  "make_uintptr (2 ^ 48) (3 * 2) = Inr 6 \<and> runtime_Callers [] 0 6 = [] \<and>
   Callers (2 ^ 48) [] 5 3 = Inr None \<and>
   make_uintptr (2 ^ 48) (0 * 2) = Inr 0 \<and> runtime_Callers four_frames 0 0 = [] \<and>
   Callers (2 ^ 48) four_frames 0 0 = Inr None"
proof -
  have a: "make_uintptr (2 ^ 48) (3 * 2) = Inr 6 \<and> runtime_Callers [] 0 6 = []"
    by (simp add: make_uintptr_def runtime_Callers_def word_sless_alt)
  have b: "make_uintptr (2 ^ 48) (0 * 2) = Inr 0 \<and> runtime_Callers four_frames 0 0 = []"
    by (simp add: make_uintptr_def runtime_Callers_def word_sless_alt)
  from Callers_no_frames_nil [of "2 ^ 48" 3 "[]" 5] a
  have c: "Callers (2 ^ 48) [] 5 3 = Inr None" by blast
  from Callers_no_frames_nil [of "2 ^ 48" 0 four_frames 0] b
  have d: "Callers (2 ^ 48) four_frames 0 0 = Inr None" by blast
  from a b c d show ?thesis by blast
qed

section \<open>Claims on \<open>stack\<close>\<close>

text \<open>
  Claim C6. A frame whose file cannot be read is to get its location line only, as
  the comment in the loop says (\<open>If we can't find the source, it won't show\<close>) and as
  the frames of the unreadable file \<open>a.go\<close> do. A frame without a file name, met
  before any file is loaded, does not: the empty name equals the initial \<open>lastFile\<close>,
  no read is tried, and the second line is printed, with the sentinel, though no
  file can be read.
\<close>

theorem stack_nameless_frame_second_line:
  "stack (\<lambda>name. None) (\<lambda>pc. None) nameless_stack =
     '':0 (0x10)'' @ [CHR 0x0A] @ [CHR 0x09] @ ''???: ???'' @ [CHR 0x0A] \<and>
   stack (\<lambda>name. None) (\<lambda>pc. None) same_file_stack =
     ''a.go:10 (0x10)'' @ [CHR 0x0A] @ ''a.go:20 (0x20)'' @ [CHR 0x0A]"
proof -
  have nameless: "stack (\<lambda>name. None) (\<lambda>pc. None) nameless_stack =
      '':0 (0x10)'' @ [CHR 0x0A] @ [CHR 0x09] @ ''???: ???'' @ [CHR 0x0A]"
    by (simp add: eval_trace)
  have named: "stack (\<lambda>name. None) (\<lambda>pc. None) same_file_stack =
      ''a.go:10 (0x10)'' @ [CHR 0x0A] @ ''a.go:20 (0x20)'' @ [CHR 0x0A]"
    by (simp add: eval_trace)
  from nameless named show ?thesis by (rule conjI)
qed

text \<open>
  Claim C8, as amended. A read is tried at a frame exactly when its file name differs
  from \<open>lastFile\<close>, and \<open>lastFile\<close> changes only to a file that was read. A failed read
  is not remembered: in a run, an unreadable file with a non-empty name is read once
  for each frame of the trace that names it.
\<close>

theorem stack_failed_read_is_not_cached:
  assumes "ReadFile f = None" and "f \<noteq> []"
  shows "count_list (reads (stack_run ReadFile FuncForPC stk)) f = count_list (map File (drop 2 stk)) f \<and>
         (\<forall>fr s. reads (stack_frame ReadFile FuncForPC fr s) =
                   (if File fr \<noteq> lastFile s then reads s @ [File fr] else reads s) \<and>
                 lastFile (stack_frame ReadFile FuncForPC fr s) =
                   (if File fr \<noteq> lastFile s \<and> ReadFile (File fr) \<noteq> None then File fr
                    else lastFile s))"
proof -
  have "lastFile init_state = [] \<or> ReadFile (lastFile init_state) \<noteq> None"
    by (simp add: init_state_def)
  from stack_frames_count_reads [OF assms this, of FuncForPC "drop 2 stk"]
  have "count_list (reads (stack_run ReadFile FuncForPC stk)) f = count_list (map File (drop 2 stk)) f"
    by (simp add: stack_run_frames init_state_def)
  then show ?thesis by (simp add: stack_frame_reads stack_frame_lastFile)
qed

text \<open>Two frames from the unreadable file \<open>a.go\<close>: two reads of it.\<close>

theorem stack_failed_read_is_not_cached_witness:
  "count_list (reads (stack_run (\<lambda>name. None) (\<lambda>pc. None) same_file_stack)) ''a.go'' = 2"
proof -
  have h: "(\<lambda>name :: string. None :: string option) ''a.go'' = None" "''a.go'' \<noteq> []" by simp_all
  from stack_failed_read_is_not_cached [OF h, of "\<lambda>pc. None" same_file_stack]
  show ?thesis by (simp add: same_file_stack_def skipped_frames_def)
qed

text \<open>
  Claim C8 as first stated fails: the second of two consecutive frames from a file
  whose read has just failed reads the file again.
\<close>

theorem stack_reads_same_file_twice_counterexample:
  "reads (stack_run (\<lambda>name. None) (\<lambda>pc. None) same_file_stack) = [''a.go'', ''a.go'']"
  by (simp add: eval_trace)

end
